theory Spec2Isabelle
  imports Main
begin

section \<open>Two-way reconciliation of tabular datasets (src/main.py)\<close>

text \<open>
  The development embeds the reconciliation core of \<^verbatim>\<open>src/main.py\<close>:
  \<^verbatim>\<open>get_user_choice\<close>, \<^verbatim>\<open>merge_rows_enhanced\<close> and the part of
  \<^verbatim>\<open>compare_json_enhanced\<close> that runs after both JSON files are loaded.

  \<^item> A cell is a \<open>string\<close>: the decoder \<^verbatim>\<open>excel_to_json_streaming\<close> writes every
    cell as \<^verbatim>\<open>str(cell)\<close> or \<^verbatim>\<open>""\<close>, so \<^verbatim>\<open>str(cell)\<close> in the core is the
    identity and the \<^verbatim>\<open>is not None\<close> tests on cells always succeed. A character is
    a code point below 256.
  \<^item> A row is a \<open>string list\<close>; a row that may be \<^verbatim>\<open>None\<close> is a
    \<open>string list option\<close>.
  \<^item> A sheet is a record of its two JSON keys; a dataset is a map from sheet names.
  \<^item> The terminal is a record: the lines the operator will still type, and the log of
    the calls of \<^verbatim>\<open>get_user_choice\<close> that returned. \<^verbatim>\<open>input()\<close> on an exhausted
    terminal raises \<^verbatim>\<open>EOFError\<close>, the only exception the core can raise on such data.
    \<^verbatim>\<open>print\<close> output is not part of the state: no branch reads it.
\<close>

subsection \<open>Strings and truthiness\<close>

definition is_space :: "char \<Rightarrow> bool" where
  "is_space c \<longleftrightarrow> c \<in> set [CHR 0x09, CHR 0x0A, CHR 0x0B, CHR 0x0C, CHR 0x0D,
                           CHR 0x1C, CHR 0x1D, CHR 0x1E, CHR 0x1F, CHR 0x20,
                           CHR 0x85, CHR 0xA0]"

text \<open>\<^verbatim>\<open>s.strip()\<close>: leading and trailing whitespace removed.\<close>

definition strip :: "string \<Rightarrow> string" where
  "strip s = rev (dropWhile is_space (rev (dropWhile is_space s)))"

type_synonym row = "string list"

text \<open>\<^verbatim>\<open>any(str(cell).strip() for cell in row)\<close>\<close>

definition any_cell :: "row \<Rightarrow> bool" where
  "any_cell r = list_ex (\<lambda>cell. strip cell \<noteq> []) r"

text \<open>Truth value of a row that may be \<^verbatim>\<open>None\<close>: false for \<^verbatim>\<open>None\<close> and for \<^verbatim>\<open>[]\<close>.\<close>

fun truthy :: "row option \<Rightarrow> bool" where
  "truthy None = False"
| "truthy (Some r) = (r \<noteq> [])"

subsection \<open>Data model\<close>

record sheet =
  headers :: "string list"
  rows :: "row list"

type_synonym dataset = "string \<rightharpoonup> sheet"

datatype error = EOFError

record world =
  stdin :: "string list"
  asked :: "(string \<times> string list) list"

subsection \<open>\<^verbatim>\<open>get_user_choice\<close> (lines 134-140)\<close>

text \<open>
  The \<^verbatim>\<open>while True\<close> loop: each round reads one line, strips it and returns it when it
  is a valid choice. The recursion is on the lines still to come.
\<close>

fun get_user_choice_loop :: "string list \<Rightarrow> string list \<Rightarrow> error + (string \<times> string list)" where
  "get_user_choice_loop valid_choices [] = Inl EOFError"
| "get_user_choice_loop valid_choices (line # rest) =
     (let choice = strip line in
      if choice \<in> set valid_choices then Inr (choice, rest)
      else get_user_choice_loop valid_choices rest)"

definition get_user_choice :: "string \<Rightarrow> string list \<Rightarrow> world \<Rightarrow> error + (string \<times> world)" where
  "get_user_choice prompt valid_choices w =
     (case get_user_choice_loop valid_choices (stdin w) of
        Inl e \<Rightarrow> Inl e
      | Inr (choice, rest) \<Rightarrow>
          Inr (choice, w\<lparr>stdin := rest, asked := asked w @ [(prompt, valid_choices)]\<rparr>))"

subsection \<open>\<^verbatim>\<open>merge_rows_enhanced\<close> (lines 165-203)\<close>

text \<open>\<^verbatim>\<open>row[i] if i < len(row) else ""\<close>\<close>

definition cell_at :: "row \<Rightarrow> nat \<Rightarrow> string" where
  "cell_at r i = (if i < length r then r ! i else [])"

text \<open>
  One round of the \<^verbatim>\<open>for i in range(max_len)\<close> loop, lines 184-201, on the two cells
  \<open>lv\<close> and \<open>rv\<close> of the position: the value appended to \<^verbatim>\<open>merged\<close>.
\<close>

definition merge_field :: "string \<Rightarrow> string \<Rightarrow> world \<Rightarrow> error + (string \<times> world)" where
  "merge_field lv rv w =
     (let lv_clean = strip lv; rv_clean = strip rv in
      if lv_clean = rv_clean then Inr (lv_clean, w)
      else if lv_clean \<noteq> [] \<and> rv_clean = [] then Inr (lv_clean, w)
      else if rv_clean \<noteq> [] \<and> lv_clean = [] then Inr (rv_clean, w)
      else (case get_user_choice ''Choose'' [''1'', ''2''] w of
              Inl e \<Rightarrow> Inl e
            | Inr (choice, w') \<Rightarrow> Inr (if choice = ''1'' then lv_clean else rv_clean, w')))"

fun merge_rows_loop :: "row \<Rightarrow> row \<Rightarrow> nat list \<Rightarrow> row \<Rightarrow> world \<Rightarrow> error + (row \<times> world)" where
  "merge_rows_loop lrow rrow [] merged w = Inr (merged, w)"
| "merge_rows_loop lrow rrow (i # is) merged w =
     (case merge_field (cell_at lrow i) (cell_at rrow i) w of
        Inl e \<Rightarrow> Inl e
      | Inr (v, w') \<Rightarrow> merge_rows_loop lrow rrow is (merged @ [v]) w')"

text \<open>
  The argument \<open>hdrs\<close> only labels the printed conflict, so the loop does not take it.
\<close>

definition merge_rows_enhanced ::
  "string list \<Rightarrow> row option \<Rightarrow> row option \<Rightarrow> world \<Rightarrow> error + (row option \<times> world)" where
  "merge_rows_enhanced hdrs lrow rrow w =
     (if \<not> truthy lrow \<and> \<not> truthy rrow then Inr (None, w)
      else if \<not> truthy lrow then Inr (rrow, w)
      else if \<not> truthy rrow then Inr (lrow, w)
      else (let l = the lrow; r = the rrow; max_len = max (length l) (length r) in
            case merge_rows_loop l r [0..<max_len] [] w of
              Inl e \<Rightarrow> Inl e
            | Inr (merged, w') \<Rightarrow> Inr (Some merged, w')))"

subsection \<open>\<^verbatim>\<open>compare_json_enhanced\<close> (lines 219-276)\<close>

text \<open>\<^verbatim>\<open>rows[i] if i < len(rows) else None\<close>\<close>

definition row_at :: "row list \<Rightarrow> nat \<Rightarrow> row option" where
  "row_at rs i = (if i < length rs then Some (rs ! i) else None)"

definition row_prompt :: string where
  "row_prompt = CHR 0x0A # ''Resolve conflict''"

definition row_choices :: "string list" where
  "row_choices = [''1'', ''2'', ''3'', ''4'', ''s'']"

text \<open>\<^verbatim>\<open>if merged: resolved_rows.append(merged)\<close>\<close>

fun append_if :: "row list \<Rightarrow> row option \<Rightarrow> row list" where
  "append_if resolved_rows None = resolved_rows"
| "append_if resolved_rows (Some r) = (if r \<noteq> [] then resolved_rows @ [r] else resolved_rows)"

text \<open>
  One round of the row loop, lines 239-266, on the pair of rows of one index. The state
  of the loop is \<open>(resolved_rows, sheet_conflicts)\<close>.
\<close>

definition compare_row ::
  "string list \<Rightarrow> row option \<Rightarrow> row option \<Rightarrow> row list \<times> nat \<Rightarrow> world
     \<Rightarrow> error + ((row list \<times> nat) \<times> world)" where
  "compare_row hdrs lrow rrow st w =
     (case st of (resolved_rows, sheet_conflicts) \<Rightarrow>
      if lrow = rrow then
        (if truthy lrow \<and> any_cell (the lrow)
         then Inr ((resolved_rows @ [the lrow], sheet_conflicts), w)
         else Inr ((resolved_rows, sheet_conflicts), w))
      else
        (case get_user_choice row_prompt row_choices w of
           Inl e \<Rightarrow> Inl e
         | Inr (choice, w') \<Rightarrow>
             if choice = ''1'' \<and> truthy lrow then
               Inr ((resolved_rows @ [the lrow], sheet_conflicts + 1), w')
             else if choice = ''2'' \<and> truthy rrow then
               Inr ((resolved_rows @ [the rrow], sheet_conflicts + 1), w')
             else if choice = ''3'' then
               (case merge_rows_enhanced hdrs lrow rrow w' of
                  Inl e \<Rightarrow> Inl e
                | Inr (merged, w'') \<Rightarrow>
                    Inr ((append_if resolved_rows merged, sheet_conflicts + 1), w''))
             else if choice = ''4'' then
               (case merge_rows_enhanced hdrs rrow lrow w' of
                  Inl e \<Rightarrow> Inl e
                | Inr (merged, w'') \<Rightarrow>
                    Inr ((append_if resolved_rows merged, sheet_conflicts + 1), w''))
             else Inr ((resolved_rows, sheet_conflicts + 1), w')))"

fun compare_rows_loop ::
  "string list \<Rightarrow> row list \<Rightarrow> row list \<Rightarrow> nat list \<Rightarrow> row list \<times> nat \<Rightarrow> world
     \<Rightarrow> error + ((row list \<times> nat) \<times> world)" where
  "compare_rows_loop hdrs local_rows remote_rows [] st w = Inr (st, w)"
| "compare_rows_loop hdrs local_rows remote_rows (i # is) st w =
     (case compare_row hdrs (row_at local_rows i) (row_at remote_rows i) st w of
        Inl e \<Rightarrow> Inl e
      | Inr (st', w') \<Rightarrow> compare_rows_loop hdrs local_rows remote_rows is st' w')"

text \<open>
  The body of \<^verbatim>\<open>for sheet in all_sheets\<close>, lines 230-271, on the two sheets already
  looked up: the resolved sheet and \<^verbatim>\<open>sheet_conflicts\<close>. Line 230 is
  \<^verbatim>\<open>local_sheet.get("headers", []) or remote_sheet.get("headers", [])\<close>.
\<close>

definition resolved_headers :: "sheet \<Rightarrow> sheet \<Rightarrow> string list" where
  "resolved_headers local_sheet remote_sheet =
     (if headers local_sheet \<noteq> [] then headers local_sheet else headers remote_sheet)"

definition compare_sheet :: "sheet \<Rightarrow> sheet \<Rightarrow> world \<Rightarrow> error + ((sheet \<times> nat) \<times> world)" where
  "compare_sheet local_sheet remote_sheet w =
     (let hdrs = resolved_headers local_sheet remote_sheet;
          local_rows = rows local_sheet;
          remote_rows = rows remote_sheet;
          max_len = max (length local_rows) (length remote_rows) in
      case compare_rows_loop hdrs local_rows remote_rows [0..<max_len] ([], 0) w of
        Inl e \<Rightarrow> Inl e
      | Inr ((resolved_rows, sheet_conflicts), w') \<Rightarrow>
          Inr ((\<lparr>headers = hdrs,
                 rows = filter (\<lambda>r. r \<noteq> [] \<and> any_cell r) resolved_rows\<rparr>,
                sheet_conflicts), w'))"

definition empty_sheet :: sheet where
  "empty_sheet = \<lparr>headers = [], rows = []\<rparr>"

text \<open>\<^verbatim>\<open>data.get(sheet, {"headers": [], "rows": []})\<close>\<close>

definition get_sheet :: "dataset \<Rightarrow> string \<Rightarrow> sheet" where
  "get_sheet d name = (case d name of None \<Rightarrow> empty_sheet | Some s \<Rightarrow> s)"

text \<open>
  The loop over \<^verbatim>\<open>all_sheets\<close>. Python iterates over a \<^verbatim>\<open>set\<close> in an order the
  language does not fix, so the order is the argument \<open>all_sheets\<close>; \<open>sheet_order\<close>
  says that it enumerates the union of the two key sets, each name once.
\<close>

fun compare_sheets_loop ::
  "string list \<Rightarrow> dataset \<Rightarrow> dataset \<Rightarrow> dataset \<times> nat \<Rightarrow> world
     \<Rightarrow> error + ((dataset \<times> nat) \<times> world)" where
  "compare_sheets_loop [] local_data remote_data st w = Inr (st, w)"
| "compare_sheets_loop (name # names) local_data remote_data st w =
     (case st of (resolved, total_conflicts) \<Rightarrow>
      case compare_sheet (get_sheet local_data name) (get_sheet remote_data name) w of
        Inl e \<Rightarrow> Inl e
      | Inr ((sh, sheet_conflicts), w') \<Rightarrow>
          compare_sheets_loop names local_data remote_data
            (resolved(name \<mapsto> sh), total_conflicts + sheet_conflicts) w')"

definition sheet_order :: "string list \<Rightarrow> dataset \<Rightarrow> dataset \<Rightarrow> bool" where
  "sheet_order all_sheets local_data remote_data \<longleftrightarrow>
     distinct all_sheets \<and> set all_sheets = dom local_data \<union> dom remote_data"

definition compare_json_enhanced ::
  "string list \<Rightarrow> dataset \<Rightarrow> dataset \<Rightarrow> world \<Rightarrow> error + ((dataset \<times> nat) \<times> world)" where
  "compare_json_enhanced all_sheets local_data remote_data w =
     compare_sheets_loop all_sheets local_data remote_data (Map.empty, 0) w"

subsection \<open>The loops after their first \<open>k\<close> rounds\<close>

text \<open>
  The state of the field loop of \<^verbatim>\<open>merge_rows_enhanced\<close> once the positions
  \<open>0, ..., k - 1\<close> are done, and the state of the row loop of a sheet once the row
  indices \<open>0, ..., k - 1\<close> are done. What a position or an index does to the merged
  row, to the resolved rows and to the terminal is the step from \<open>k\<close> to \<open>Suc k\<close>.
\<close>

definition merge_upto :: "row \<Rightarrow> row \<Rightarrow> nat \<Rightarrow> world \<Rightarrow> error + (row \<times> world)" where
  "merge_upto lrow rrow k w = merge_rows_loop lrow rrow [0..<k] [] w"

definition compare_upto ::
  "sheet \<Rightarrow> sheet \<Rightarrow> nat \<Rightarrow> world \<Rightarrow> error + ((row list \<times> nat) \<times> world)" where
  "compare_upto local_sheet remote_sheet k w =
     compare_rows_loop (resolved_headers local_sheet remote_sheet)
       (rows local_sheet) (rows remote_sheet) [0..<k] ([], 0) w"

text \<open>The number of row-level decisions in the log of a terminal.\<close>

definition row_asks :: "world \<Rightarrow> nat" where
  "row_asks w = count_list (asked w) (row_prompt, row_choices)"

text \<open>
  A row that may be \<^verbatim>\<open>None\<close> and has a cell that is not empty after trimming: the test
  \<^verbatim>\<open>row and any(str(cell).strip() for cell in row)\<close> of lines 243 and 270.
\<close>

fun has_content :: "row option \<Rightarrow> bool" where
  "has_content None = False"
| "has_content (Some r) = any_cell r"

subsection \<open>The row merge in the specification's words\<close>

text \<open>
  Written from the specification (4.2), not from the code: the shorter row is padded with
  empty cells up to the longer one's width, then the field rule (\<open>merge_field\<close>) is
  applied to each pair of cells, left to right. The code is compared with it below.
\<close>

definition spec_pad_row :: "nat \<Rightarrow> row \<Rightarrow> row" where
  "spec_pad_row n r = r @ replicate (n - length r) []"

fun spec_merge_fields :: "(string \<times> string) list \<Rightarrow> world \<Rightarrow> error + (row \<times> world)" where
  "spec_merge_fields [] w = Inr ([], w)"
| "spec_merge_fields ((lv, rv) # ps) w =
     (case merge_field lv rv w of
        Inl e \<Rightarrow> Inl e
      | Inr (v, w1) \<Rightarrow>
          (case spec_merge_fields ps w1 of
             Inl e \<Rightarrow> Inl e
           | Inr (vs, w2) \<Rightarrow> Inr (v # vs, w2)))"

section \<open>Auxiliary facts\<close>

subsection \<open>Trimming and the decision protocol\<close>

lemma dropWhile_head: "dropWhile P xs \<noteq> [] \<Longrightarrow> \<not> P (hd (dropWhile P xs))"
  by (simp add: hd_dropWhile)

lemma last_dropWhile: "dropWhile P xs \<noteq> [] \<Longrightarrow> last (dropWhile P xs) = last xs"
  by (induction xs) (auto split: if_splits)

lemma dropWhile_id: "xs = [] \<or> \<not> P (hd xs) \<Longrightarrow> dropWhile P xs = xs"
  by (cases xs) auto

lemma strip_strip: "strip (strip s) = strip s"
proof -
  let ?u = "dropWhile is_space s"
  let ?v = "dropWhile is_space (rev ?u)"
  have v: "?v = [] \<or> \<not> is_space (hd ?v)"
    using dropWhile_head [of is_space "rev ?u"] by blast
  have "rev ?v = [] \<or> \<not> is_space (hd (rev ?v))"
  proof (cases "?v = []")
    case True
    then show ?thesis by simp
  next
    case False
    then have u: "?u \<noteq> []" by (cases "?u = []") simp_all
    have "hd (rev ?v) = last ?v" using False by (simp add: hd_rev)
    also have "\<dots> = last (rev ?u)" using False by (rule last_dropWhile)
    also have "\<dots> = hd ?u" using u by (simp add: last_rev)
    finally show ?thesis using dropWhile_head [of is_space s] u by simp
  qed
  then have "dropWhile is_space (rev ?v) = rev ?v" by (rule dropWhile_id)
  moreover have "dropWhile is_space ?v = ?v" using v by (rule dropWhile_id)
  ultimately show ?thesis by (simp add: strip_def)
qed

lemma get_user_choice_loop_valid:
  "get_user_choice_loop valid ls = Inr (c, rest) \<Longrightarrow> c \<in> set valid"
  by (induction ls) (auto simp: Let_def split: if_splits)

lemma get_user_choice_Inr:
  "get_user_choice p valid w = Inr (c, w') \<longleftrightarrow>
     (\<exists>rest. get_user_choice_loop valid (stdin w) = Inr (c, rest) \<and>
        w' = w\<lparr>stdin := rest, asked := asked w @ [(p, valid)]\<rparr>)"
  by (auto simp: get_user_choice_def split: sum.splits)

lemma merge_field_equal:
  "strip lv = strip rv \<Longrightarrow> merge_field lv rv w = Inr (strip lv, w)"
  by (simp add: merge_field_def Let_def)

lemma merge_field_local:
  "strip lv \<noteq> [] \<Longrightarrow> strip rv = [] \<Longrightarrow> merge_field lv rv w = Inr (strip lv, w)"
  by (simp add: merge_field_def Let_def)

lemma merge_field_remote:
  "strip lv = [] \<Longrightarrow> strip rv \<noteq> [] \<Longrightarrow> merge_field lv rv w = Inr (strip rv, w)"
  by (simp add: merge_field_def Let_def)

lemma merge_field_conflict:
  "strip lv \<noteq> strip rv \<Longrightarrow> strip lv \<noteq> [] \<Longrightarrow> strip rv \<noteq> [] \<Longrightarrow>
   merge_field lv rv w =
     (case get_user_choice ''Choose'' [''1'', ''2''] w of
        Inl e \<Rightarrow> Inl e
      | Inr (choice, w') \<Rightarrow> Inr (if choice = ''1'' then strip lv else strip rv, w'))"
  by (simp add: merge_field_def Let_def)

lemma merge_field_value:
  "merge_field lv rv w = Inr (v, w') \<Longrightarrow>
   (v = strip lv \<or> v = strip rv) \<and> (v = [] \<longleftrightarrow> strip lv = [] \<and> strip rv = [])"
  by (auto simp: merge_field_def Let_def split: if_splits sum.splits)

lemma merge_field_row_asks:
  "merge_field lv rv w = Inr (v, w') \<Longrightarrow> row_asks w' = row_asks w"
  by (auto simp: merge_field_def Let_def row_asks_def row_prompt_def get_user_choice_Inr
      split: if_splits sum.splits)

lemma merge_rows_loop_append:
  "merge_rows_loop l r (xs @ ys) merged w =
     (case merge_rows_loop l r xs merged w of
        Inl e \<Rightarrow> Inl e
      | Inr (m1, w1) \<Rightarrow> merge_rows_loop l r ys m1 w1)"
  by (induction xs arbitrary: merged w) (auto split: sum.splits)

lemma merge_rows_loop_shape:
  "merge_rows_loop l r is merged w = Inr (m, w') \<Longrightarrow>
   \<exists>vs. m = merged @ vs \<and> length vs = length is"
proof (induction "is" arbitrary: merged w)
  case Nil
  then show ?case by simp
next
  case (Cons i "is")
  from Cons.prems obtain v w1 where
    f: "merge_field (cell_at l i) (cell_at r i) w = Inr (v, w1)" and
    rest: "merge_rows_loop l r is (merged @ [v]) w1 = Inr (m, w')"
    by (auto split: sum.splits)
  from Cons.IH [OF rest] obtain vs where "m = (merged @ [v]) @ vs" "length vs = length is"
    by blast
  then have "m = merged @ (v # vs) \<and> length (v # vs) = length (i # is)" by simp
  then show ?case by blast
qed

lemma merge_rows_loop_row_asks:
  "merge_rows_loop l r is merged w = Inr (m, w') \<Longrightarrow> row_asks w' = row_asks w"
proof (induction "is" arbitrary: merged w)
  case Nil
  then show ?case by simp
next
  case (Cons i "is")
  from Cons.prems obtain v w1 where
    f: "merge_field (cell_at l i) (cell_at r i) w = Inr (v, w1)" and
    rest: "merge_rows_loop l r is (merged @ [v]) w1 = Inr (m, w')"
    by (auto split: sum.splits)
  show ?case using Cons.IH [OF rest] merge_field_row_asks [OF f] by simp
qed

subsection \<open>The field loop\<close>

lemma merge_upto_Suc:
  "merge_upto l r (Suc k) w =
     (case merge_upto l r k w of
        Inl e \<Rightarrow> Inl e
      | Inr (m1, w1) \<Rightarrow>
          (case merge_field (cell_at l k) (cell_at r k) w1 of
             Inl e \<Rightarrow> Inl e
           | Inr (v, w2) \<Rightarrow> Inr (m1 @ [v], w2)))"
  by (simp add: merge_upto_def merge_rows_loop_append split: sum.splits)

lemma merge_upto_prefix:
  assumes "merge_upto l r n w = Inr (m, w')" and "k \<le> n"
  shows "\<exists>m1 w1. merge_upto l r k w = Inr (m1, w1) \<and> length m1 = k \<and> take k m = m1"
proof -
  have "[0..<n] = [0..<k] @ [k..<n]"
    using assms(2) upt_add_eq_append [of 0 k "n - k"] by simp
  with assms(1) obtain m1 w1 where
    a: "merge_rows_loop l r [0..<k] [] w = Inr (m1, w1)" and
    b: "merge_rows_loop l r [k..<n] m1 w1 = Inr (m, w')"
    by (auto simp: merge_upto_def merge_rows_loop_append split: sum.splits)
  from merge_rows_loop_shape [OF a] have len: "length m1 = k" by auto
  from merge_rows_loop_shape [OF b] obtain vs where "m = m1 @ vs" by blast
  with len have "take k m = m1" by simp
  with a len show ?thesis by (simp add: merge_upto_def)
qed

lemma merge_rows_enhanced_both:
  "l \<noteq> [] \<Longrightarrow> r \<noteq> [] \<Longrightarrow>
   merge_rows_enhanced hdrs (Some l) (Some r) w =
     (case merge_upto l r (max (length l) (length r)) w of
        Inl e \<Rightarrow> Inl e
      | Inr (merged, w') \<Rightarrow> Inr (Some merged, w'))"
  by (simp add: merge_rows_enhanced_def merge_upto_def Let_def)

lemma merge_position:
  assumes run: "merge_rows_enhanced hdrs (Some l) (Some r) w = Inr (res, w')"
    and l: "l \<noteq> []" and r: "r \<noteq> []"
    and i: "i < max (length l) (length r)"
  shows "\<exists>m m1 w1 w2. res = Some m \<and> length m = max (length l) (length r) \<and>
           merge_upto l r i w = Inr (m1, w1) \<and>
           merge_field (cell_at l i) (cell_at r i) w1 = Inr (m ! i, w2) \<and>
           merge_upto l r (Suc i) w = Inr (m1 @ [m ! i], w2)"
proof -
  let ?n = "max (length l) (length r)"
  from run l r obtain m where res: "res = Some m" and full: "merge_upto l r ?n w = Inr (m, w')"
    by (auto simp: merge_rows_enhanced_both split: sum.splits)
  from merge_upto_prefix [OF full, of ?n] full have len: "length m = ?n" by auto
  from i have "Suc i \<le> ?n" by simp
  from merge_upto_prefix [OF full this] obtain m2 w2 where
    s: "merge_upto l r (Suc i) w = Inr (m2, w2)" and t: "take (Suc i) m = m2"
    by blast
  from s obtain m1 w1 v where
    p: "merge_upto l r i w = Inr (m1, w1)" and
    f: "merge_field (cell_at l i) (cell_at r i) w1 = Inr (v, w2)" and
    m2: "m2 = m1 @ [v]"
    by (auto simp: merge_upto_Suc split: sum.splits)
  from merge_upto_prefix [OF full, of i] i p have l1: "length m1 = i" by auto
  have "m ! i = take (Suc i) m ! i" by simp
  also have "\<dots> = v" using t m2 l1 by (simp add: nth_append)
  finally have "m ! i = v" .
  with res len p f s m2 show ?thesis by auto
qed

lemma merge_rows_loop_fields:
  "merge_rows_loop l r is merged w =
     (case spec_merge_fields (map (\<lambda>i. (cell_at l i, cell_at r i)) is) w of
        Inl e \<Rightarrow> Inl e
      | Inr (vs, w') \<Rightarrow> Inr (merged @ vs, w'))"
  by (induction "is" arbitrary: merged w) (auto split: sum.splits)

lemma cells_zip_padded:
  "length l \<le> n \<Longrightarrow> length r \<le> n \<Longrightarrow>
   map (\<lambda>i. (cell_at l i, cell_at r i)) [0..<n] = zip (spec_pad_row n l) (spec_pad_row n r)"
  by (rule nth_equalityI) (auto simp: spec_pad_row_def cell_at_def nth_append)

section \<open>The row merge\<close>

text \<open>
  \<^bold>\<open>C3\<close>, as amended (non-empty wins). In a row merge of two rows that are both
  present and not empty (both pass the presence tests of lines 167-172), take any
  position \<open>i\<close> below the longer row's length. If after trimming exactly one of the two
  values is empty, the cell \<open>i\<close> of the merged row is the trimmed non-empty value; if
  the two trimmed values are equal, it is that common value. In each of these cases the
  round of position \<open>i\<close> leaves the terminal as it found it (\<open>w1\<close> before and after):
  no line is read and no decision is asked. When one of the two rows is \<^verbatim>\<open>None\<close> or
  empty, the merge has no field rounds: it returns the other row as it is, its cells
  not trimmed (or \<^verbatim>\<open>None\<close> when neither row is there), and leaves the terminal as it
  found it.
\<close>

theorem non_empty_wins:
  assumes run: "merge_rows_enhanced hdrs (Some l) (Some r) w = Inr (res, w')"
    and l: "l \<noteq> []" and r: "r \<noteq> []"
    and i: "i < max (length l) (length r)"
  shows "(\<exists>m m1 w1. res = Some m \<and> merge_upto l r i w = Inr (m1, w1) \<and>
           (strip (cell_at l i) \<noteq> [] \<and> strip (cell_at r i) = [] \<longrightarrow>
              m ! i = strip (cell_at l i) \<and>
              merge_upto l r (Suc i) w = Inr (m1 @ [strip (cell_at l i)], w1)) \<and>
           (strip (cell_at l i) = [] \<and> strip (cell_at r i) \<noteq> [] \<longrightarrow>
              m ! i = strip (cell_at r i) \<and>
              merge_upto l r (Suc i) w = Inr (m1 @ [strip (cell_at r i)], w1)) \<and>
           (strip (cell_at l i) = strip (cell_at r i) \<longrightarrow>
              m ! i = strip (cell_at l i) \<and>
              merge_upto l r (Suc i) w = Inr (m1 @ [strip (cell_at l i)], w1))) \<and>
         (\<not> truthy lrow \<or> \<not> truthy rrow \<longrightarrow>
            merge_rows_enhanced hdrs lrow rrow u =
              Inr (if truthy rrow then rrow else if truthy lrow then lrow else None, u))"
proof
  from merge_position [OF run l r i] obtain m m1 w1 w2 where
    res: "res = Some m" and
    p: "merge_upto l r i w = Inr (m1, w1)" and
    f: "merge_field (cell_at l i) (cell_at r i) w1 = Inr (m ! i, w2)" and
    s: "merge_upto l r (Suc i) w = Inr (m1 @ [m ! i], w2)"
    by blast
  have a: "strip (cell_at l i) \<noteq> [] \<and> strip (cell_at r i) = [] \<longrightarrow>
             m ! i = strip (cell_at l i) \<and> w2 = w1"
    using f by (auto simp: merge_field_local)
  have b: "strip (cell_at l i) = [] \<and> strip (cell_at r i) \<noteq> [] \<longrightarrow>
             m ! i = strip (cell_at r i) \<and> w2 = w1"
    using f by (auto simp: merge_field_remote)
  have c: "strip (cell_at l i) = strip (cell_at r i) \<longrightarrow>
             m ! i = strip (cell_at l i) \<and> w2 = w1"
    using f by (auto simp: merge_field_equal)
  from res p s a b c
  show "\<exists>m m1 w1. res = Some m \<and> merge_upto l r i w = Inr (m1, w1) \<and>
           (strip (cell_at l i) \<noteq> [] \<and> strip (cell_at r i) = [] \<longrightarrow>
              m ! i = strip (cell_at l i) \<and>
              merge_upto l r (Suc i) w = Inr (m1 @ [strip (cell_at l i)], w1)) \<and>
           (strip (cell_at l i) = [] \<and> strip (cell_at r i) \<noteq> [] \<longrightarrow>
              m ! i = strip (cell_at r i) \<and>
              merge_upto l r (Suc i) w = Inr (m1 @ [strip (cell_at r i)], w1)) \<and>
           (strip (cell_at l i) = strip (cell_at r i) \<longrightarrow>
              m ! i = strip (cell_at l i) \<and>
              merge_upto l r (Suc i) w = Inr (m1 @ [strip (cell_at l i)], w1))"
    by auto
next
  show "\<not> truthy lrow \<or> \<not> truthy rrow \<longrightarrow>
          merge_rows_enhanced hdrs lrow rrow u =
            Inr (if truthy rrow then rrow else if truthy lrow then lrow else None, u)"
    by (simp add: merge_rows_enhanced_def)
qed

theorem non_empty_wins_witness:
  "merge_rows_enhanced [] (Some [''a'', ''b'']) (Some [''a'', ''c'', ''d''])
     \<lparr>stdin = [''2''], asked = []\<rparr> =
     Inr (Some [''a'', ''c'', ''d''], \<lparr>stdin = [], asked = [(''Choose'', [''1'', ''2''])]\<rparr>) \<and>
   strip (cell_at [''a'', ''b''] 2) = [] \<and>
   strip (cell_at [''a'', ''c'', ''d''] 2) = ''d'' \<and>
   (\<exists>m1 w1. merge_upto [''a'', ''b''] [''a'', ''c'', ''d''] 2 \<lparr>stdin = [''2''], asked = []\<rparr>
               = Inr (m1, w1) \<and>
            merge_upto [''a'', ''b''] [''a'', ''c'', ''d''] 3 \<lparr>stdin = [''2''], asked = []\<rparr>
               = Inr (m1 @ [''d''], w1)) \<and>
   merge_rows_enhanced [] None (Some ['' x '']) \<lparr>stdin = [''2''], asked = []\<rparr> =
     Inr (Some ['' x ''], \<lparr>stdin = [''2''], asked = []\<rparr>)"
proof -
  let ?w = "\<lparr>stdin = [''2''], asked = []\<rparr>"
  have run: "merge_rows_enhanced [] (Some [''a'', ''b'']) (Some [''a'', ''c'', ''d'']) ?w =
     Inr (Some [''a'', ''c'', ''d''], \<lparr>stdin = [], asked = [(''Choose'', [''1'', ''2''])]\<rparr>)"
    by (simp add: merge_rows_enhanced_def merge_field_def get_user_choice_def strip_def
        is_space_def cell_at_def upt_rec)
  have lv: "strip (cell_at [''a'', ''b''] 2) = []"
    by (simp add: strip_def cell_at_def)
  have rv: "strip (cell_at [''a'', ''c'', ''d''] 2) = ''d''"
    by (simp add: strip_def is_space_def cell_at_def)
  have ne: "[''a'', ''b''] \<noteq> []" "[''a'', ''c'', ''d''] \<noteq> []" by simp_all
  have i: "2 < max (length [''a'', ''b'']) (length [''a'', ''c'', ''d''])" by simp
  note inst = non_empty_wins [OF run ne i, where lrow = None
      and rrow = "Some ['' x '']" and u = ?w]
  from inst [THEN conjunct1] lv rv
  have "\<exists>m1 w1. merge_upto [''a'', ''b''] [''a'', ''c'', ''d''] 2 ?w = Inr (m1, w1) \<and>
            merge_upto [''a'', ''b''] [''a'', ''c'', ''d''] (Suc 2) ?w = Inr (m1 @ [''d''], w1)"
    by auto
  then have a: "\<exists>m1 w1. merge_upto [''a'', ''b''] [''a'', ''c'', ''d''] 2 ?w = Inr (m1, w1) \<and>
            merge_upto [''a'', ''b''] [''a'', ''c'', ''d''] 3 ?w = Inr (m1 @ [''d''], w1)"
    by (simp add: eval_nat_numeral)
  from inst [THEN conjunct2]
  have b: "merge_rows_enhanced [] None (Some ['' x '']) ?w = Inr (Some ['' x ''], ?w)"
    by simp
  from run lv rv a b show ?thesis by blast
qed

text \<open>
  \<^bold>\<open>C3\<close>, as stated, fails. The local row is absent (or empty), so its value at
  position 0 is empty; the remote row is \<^verbatim>\<open>[" x ", " "]\<close>, whose value at position 0
  is \<^verbatim>\<open>"x"\<close> after trimming. Lines 169-170 return the remote row as it is: the merged
  cell is \<^verbatim>\<open>" x "\<close>, not the trimmed \<^verbatim>\<open>"x"\<close>. The same row reaches the resolved sheet
  when the remote sheet has this one row, the local sheet has none and the operator
  answers \<^verbatim>\<open>"3"\<close>.
\<close>

theorem non_empty_wins_counterexample:
  "strip (cell_at [] 0) = [] \<and>
   strip (cell_at ['' x '', '' ''] 0) = ''x'' \<and>
   merge_rows_enhanced [''H''] None (Some ['' x '', '' '']) \<lparr>stdin = [], asked = []\<rparr> =
     Inr (Some ['' x '', '' ''], \<lparr>stdin = [], asked = []\<rparr>) \<and>
   merge_rows_enhanced [''H''] (Some []) (Some ['' x '', '' '']) \<lparr>stdin = [], asked = []\<rparr> =
     Inr (Some ['' x '', '' ''], \<lparr>stdin = [], asked = []\<rparr>) \<and>
   ['' x '', '' ''] ! 0 \<noteq> ''x'' \<and>
   compare_sheet \<lparr>headers = [''H''], rows = []\<rparr>
     \<lparr>headers = [''H''], rows = [['' x '', '' '']]\<rparr> \<lparr>stdin = [''3''], asked = []\<rparr> =
   Inr ((\<lparr>headers = [''H''], rows = [['' x '', '' '']]\<rparr>, 1),
        \<lparr>stdin = [], asked = [(row_prompt, row_choices)]\<rparr>)"
  by (simp add: compare_sheet_def resolved_headers_def compare_row_def row_at_def
      get_user_choice_def row_choices_def row_prompt_def merge_rows_enhanced_def
      strip_def is_space_def cell_at_def any_cell_def upt_rec Let_def)

text \<open>
  \<^bold>\<open>C4\<close> (field conflict). In a row merge of two present rows, at a position \<open>i\<close>
  whose trimmed values are both non-empty and differ, the round of position \<open>i\<close> calls
  \<^verbatim>\<open>get_user_choice\<close> once, with the two choices \<^verbatim>\<open>"1"\<close> and \<^verbatim>\<open>"2"\<close>: the log
  grows by exactly that entry. The cell \<open>i\<close> of the merged row is the trimmed local
  value when the operator's answer is \<^verbatim>\<open>"1"\<close> and the trimmed remote value when it is
  \<^verbatim>\<open>"2"\<close>.
\<close>

theorem field_conflict_asks_once:
  assumes run: "merge_rows_enhanced hdrs (Some l) (Some r) w = Inr (res, w')"
    and l: "l \<noteq> []" and r: "r \<noteq> []"
    and i: "i < max (length l) (length r)"
    and lv: "strip (cell_at l i) \<noteq> []" and rv: "strip (cell_at r i) \<noteq> []"
    and ne: "strip (cell_at l i) \<noteq> strip (cell_at r i)"
  shows "\<exists>m m1 w1 c rest. res = Some m \<and> merge_upto l r i w = Inr (m1, w1) \<and>
           get_user_choice_loop [''1'', ''2''] (stdin w1) = Inr (c, rest) \<and>
           (c = ''1'' \<or> c = ''2'') \<and>
           merge_upto l r (Suc i) w =
             Inr (m1 @ [m ! i],
                  w1\<lparr>stdin := rest, asked := asked w1 @ [(''Choose'', [''1'', ''2''])]\<rparr>) \<and>
           m ! i = (if c = ''1'' then strip (cell_at l i) else strip (cell_at r i))"
proof -
  from merge_position [OF run l r i] obtain m m1 w1 w2 where
    res: "res = Some m" and
    p: "merge_upto l r i w = Inr (m1, w1)" and
    f: "merge_field (cell_at l i) (cell_at r i) w1 = Inr (m ! i, w2)" and
    s: "merge_upto l r (Suc i) w = Inr (m1 @ [m ! i], w2)"
    by blast
  from f lv rv ne obtain c where
    g: "get_user_choice ''Choose'' [''1'', ''2''] w1 = Inr (c, w2)" and
    v: "m ! i = (if c = ''1'' then strip (cell_at l i) else strip (cell_at r i))"
    by (auto simp: merge_field_conflict split: sum.splits)
  from g obtain rest where
    loop: "get_user_choice_loop [''1'', ''2''] (stdin w1) = Inr (c, rest)" and
    w2: "w2 = w1\<lparr>stdin := rest, asked := asked w1 @ [(''Choose'', [''1'', ''2''])]\<rparr>"
    by (auto simp: get_user_choice_Inr)
  from get_user_choice_loop_valid [OF loop] have "c = ''1'' \<or> c = ''2''" by simp
  with res p loop s v w2 show ?thesis by blast
qed

theorem field_conflict_asks_once_witness:
  "merge_rows_enhanced [] (Some [''a'', ''b'']) (Some [''a'', ''c'', ''d''])
     \<lparr>stdin = [''x'', ''2''], asked = []\<rparr> =
     Inr (Some [''a'', ''c'', ''d''], \<lparr>stdin = [], asked = [(''Choose'', [''1'', ''2''])]\<rparr>) \<and>
   strip (cell_at [''a'', ''b''] 1) = ''b'' \<and>
   strip (cell_at [''a'', ''c'', ''d''] 1) = ''c'' \<and>
   merge_upto [''a'', ''b''] [''a'', ''c'', ''d''] 1 \<lparr>stdin = [''x'', ''2''], asked = []\<rparr> =
     Inr ([''a''], \<lparr>stdin = [''x'', ''2''], asked = []\<rparr>) \<and>
   merge_upto [''a'', ''b''] [''a'', ''c'', ''d''] 2 \<lparr>stdin = [''x'', ''2''], asked = []\<rparr> =
     Inr ([''a'', ''c''], \<lparr>stdin = [], asked = [(''Choose'', [''1'', ''2''])]\<rparr>)"
proof -
  let ?w = "\<lparr>stdin = [''x'', ''2''], asked = []\<rparr>"
  have run: "merge_rows_enhanced [] (Some [''a'', ''b'']) (Some [''a'', ''c'', ''d'']) ?w =
     Inr (Some [''a'', ''c'', ''d''], \<lparr>stdin = [], asked = [(''Choose'', [''1'', ''2''])]\<rparr>)"
    by (simp add: merge_rows_enhanced_def merge_field_def get_user_choice_def strip_def
        is_space_def cell_at_def upt_rec)
  have lv: "strip (cell_at [''a'', ''b''] 1) = ''b''"
    by (simp add: strip_def is_space_def cell_at_def)
  have rv: "strip (cell_at [''a'', ''c'', ''d''] 1) = ''c''"
    by (simp add: strip_def is_space_def cell_at_def)
  have p: "merge_upto [''a'', ''b''] [''a'', ''c'', ''d''] 1 ?w = Inr ([''a''], ?w)"
    by (simp add: merge_upto_def merge_field_def strip_def is_space_def cell_at_def upt_rec)
  from field_conflict_asks_once [OF run, of 1] lv rv obtain m1 w1 c rest where
    p': "merge_upto [''a'', ''b''] [''a'', ''c'', ''d''] 1 ?w = Inr (m1, w1)" and
    g: "get_user_choice_loop [''1'', ''2''] (stdin w1) = Inr (c, rest)" and
    s: "merge_upto [''a'', ''b''] [''a'', ''c'', ''d''] (Suc 1) ?w =
          Inr (m1 @ [if c = ''1'' then ''b'' else ''c''],
               w1\<lparr>stdin := rest, asked := asked w1 @ [(''Choose'', [''1'', ''2''])]\<rparr>)"
    by auto
  from p p' have m1: "m1 = [''a'']" and w1: "w1 = ?w" by simp_all
  from g w1 have "c = ''2''" and "rest = []"
    by (simp_all add: strip_def is_space_def)
  with s m1 w1 have "merge_upto [''a'', ''b''] [''a'', ''c'', ''d''] 2 ?w =
     Inr ([''a'', ''c''], \<lparr>stdin = [], asked = [(''Choose'', [''1'', ''2''])]\<rparr>)"
    by (simp add: eval_nat_numeral)
  with run lv rv p show ?thesis by blast
qed

text \<open>
  \<^bold>\<open>C8\<close> (padding of ragged rows). The merge of two present rows is the field rule
  applied to the two rows padded with empty cells up to the longer one's width. For the
  local row \<^verbatim>\<open>["a","b"]\<close> and the remote row \<^verbatim>\<open>["a","c","d"]\<close> the local row is
  padded to \<^verbatim>\<open>["a","b",""]\<close>, the third position (\<^verbatim>\<open>""\<close> against \<^verbatim>\<open>"d"\<close>) gives
  \<^verbatim>\<open>"d"\<close> on any terminal without touching it, and the merged row is
  \<^verbatim>\<open>["a", v, "d"]\<close> with \<open>v\<close> the operator's decision between \<^verbatim>\<open>"b"\<close> and \<^verbatim>\<open>"c"\<close>,
  after exactly one field-level decision.
\<close>

theorem ragged_rows_padded:
  assumes l: "l \<noteq> []" and r: "r \<noteq> []"
    and c: "get_user_choice_loop [''1'', ''2''] (stdin w) = Inr (c, rest)"
  shows "merge_rows_enhanced hdrs (Some l) (Some r) u =
           (let n = max (length l) (length r) in
            case spec_merge_fields (zip (spec_pad_row n l) (spec_pad_row n r)) u of
              Inl e \<Rightarrow> Inl e
            | Inr (merged, w') \<Rightarrow> Inr (Some merged, w')) \<and>
         spec_pad_row 3 [''a'', ''b''] = [''a'', ''b'', ''''] \<and>
         merge_field '''' ''d'' v = Inr (''d'', v) \<and>
         merge_rows_enhanced hdrs (Some [''a'', ''b'']) (Some [''a'', ''c'', ''d'']) w =
           Inr (Some [''a'', if c = ''1'' then ''b'' else ''c'', ''d''],
                w\<lparr>stdin := rest, asked := asked w @ [(''Choose'', [''1'', ''2''])]\<rparr>)"
proof -
  let ?n = "max (length l) (length r)"
  have "merge_rows_enhanced hdrs (Some l) (Some r) u =
          (case spec_merge_fields (zip (spec_pad_row ?n l) (spec_pad_row ?n r)) u of
             Inl e \<Rightarrow> Inl e
           | Inr (merged, w') \<Rightarrow> Inr (Some merged, w'))"
    using l r cells_zip_padded [of l ?n r, symmetric]
    by (simp add: merge_rows_enhanced_both merge_upto_def merge_rows_loop_fields
        split: sum.splits)
  moreover have "spec_pad_row 3 [''a'', ''b''] = [''a'', ''b'', '''']"
    by (simp add: spec_pad_row_def)
  moreover have "merge_field '''' ''d'' v = Inr (''d'', v)"
    by (simp add: merge_field_def strip_def is_space_def)
  moreover have "merge_rows_enhanced hdrs (Some [''a'', ''b'']) (Some [''a'', ''c'', ''d'']) w =
           Inr (Some [''a'', if c = ''1'' then ''b'' else ''c'', ''d''],
                w\<lparr>stdin := rest, asked := asked w @ [(''Choose'', [''1'', ''2''])]\<rparr>)"
    using c
    by (simp add: merge_rows_enhanced_def merge_field_def get_user_choice_def strip_def
        is_space_def cell_at_def upt_rec)
  ultimately show ?thesis by (simp add: Let_def)
qed

theorem ragged_rows_padded_witness:
  "get_user_choice_loop [''1'', ''2''] (stdin \<lparr>stdin = [''1''], asked = []\<rparr>) = Inr (''1'', []) \<and>
   merge_rows_enhanced [] (Some [''a'', ''b'']) (Some [''a'', ''c'', ''d''])
     \<lparr>stdin = [''1''], asked = []\<rparr> =
     Inr (Some [''a'', ''b'', ''d''], \<lparr>stdin = [], asked = [(''Choose'', [''1'', ''2''])]\<rparr>)"
proof -
  let ?w = "\<lparr>stdin = [''1''], asked = []\<rparr>"
  have c: "get_user_choice_loop [''1'', ''2''] (stdin ?w) = Inr (''1'', [])"
    by (simp add: strip_def is_space_def)
  have l: "[''a'', ''b''] \<noteq> []" and r: "[''a'', ''c'', ''d''] \<noteq> []"
    by simp_all
  have "merge_rows_enhanced [] (Some [''a'', ''b'']) (Some [''a'', ''c'', ''d'']) ?w =
     Inr (Some [''a'', ''b'', ''d''], \<lparr>stdin = [], asked = [(''Choose'', [''1'', ''2''])]\<rparr>)"
    using ragged_rows_padded [OF l r c, where hdrs = "[]",
        THEN conjunct2, THEN conjunct2, THEN conjunct2]
    by simp
  with c show ?thesis by simp
qed

section \<open>The row loop of a sheet\<close>

lemma merge_rows_enhanced_row_asks:
  "merge_rows_enhanced hdrs lrow rrow w = Inr (res, w') \<Longrightarrow> row_asks w' = row_asks w"
  by (auto simp: merge_rows_enhanced_def Let_def split: if_splits sum.splits
      dest: merge_rows_loop_row_asks)

lemma get_user_choice_row_asks:
  "get_user_choice row_prompt row_choices w = Inr (c, w') \<Longrightarrow> row_asks w' = Suc (row_asks w)"
  by (auto simp: get_user_choice_Inr row_asks_def)

lemma compare_row_equal:
  "compare_row hdrs x x (rs, n) w =
     Inr ((if truthy x \<and> any_cell (the x) then rs @ [the x] else rs, n), w)"
  by (simp add: compare_row_def)

lemma append_if_cases:
  "append_if rs m = rs \<or> (\<exists>r. m = Some r \<and> r \<noteq> [] \<and> append_if rs m = rs @ [r])"
  by (cases m) auto

lemma compare_row_differ:
  assumes "lrow \<noteq> rrow" and "compare_row hdrs lrow rrow (rs, n) w = Inr ((rs', n'), w')"
  shows "n' = Suc n \<and> row_asks w' = Suc (row_asks w) \<and> (rs' = rs \<or> (\<exists>r. rs' = rs @ [r]))"
proof -
  from assms obtain c w1 where
    g: "get_user_choice row_prompt row_choices w = Inr (c, w1)"
    by (auto simp: compare_row_def split: sum.splits)
  note a = get_user_choice_row_asks [OF g]
  from assms g show ?thesis
    using a append_if_cases [of rs]
    by (auto simp: compare_row_def split: if_splits sum.splits
        dest!: merge_rows_enhanced_row_asks)
qed

lemma compare_rows_loop_append:
  "compare_rows_loop hdrs ls rs (xs @ ys) st w =
     (case compare_rows_loop hdrs ls rs xs st w of
        Inl e \<Rightarrow> Inl e
      | Inr (st1, w1) \<Rightarrow> compare_rows_loop hdrs ls rs ys st1 w1)"
  by (induction xs arbitrary: st w) (auto split: sum.splits)

lemma compare_rows_loop_counts:
  "compare_rows_loop hdrs ls rs is (acc, n) w = Inr ((acc', n'), w') \<Longrightarrow>
   n' = n + length (filter (\<lambda>i. row_at ls i \<noteq> row_at rs i) is) \<and>
   row_asks w' = row_asks w + length (filter (\<lambda>i. row_at ls i \<noteq> row_at rs i) is) \<and>
   (\<exists>more. acc' = acc @ more)"
proof (induction "is" arbitrary: acc n w)
  case Nil
  then show ?case by simp
next
  case (Cons i "is")
  from Cons.prems obtain acc1 n1 w1 where
    step: "compare_row hdrs (row_at ls i) (row_at rs i) (acc, n) w = Inr ((acc1, n1), w1)" and
    rest: "compare_rows_loop hdrs ls rs is (acc1, n1) w1 = Inr ((acc', n'), w')"
    by (auto split: sum.splits)
  note ih = Cons.IH [OF rest]
  show ?case
  proof (cases "row_at ls i = row_at rs i")
    case True
    with step have "n1 = n" "w1 = w" "\<exists>more. acc1 = acc @ more"
      by (auto simp: compare_row_equal split: if_splits)
    with ih True show ?thesis by auto
  next
    case False
    from compare_row_differ [OF False step]
    have "n1 = Suc n" "row_asks w1 = Suc (row_asks w)" "\<exists>more. acc1 = acc @ more"
      by auto
    with ih False show ?thesis by auto
  qed
qed

text \<open>
  \<^bold>\<open>C5\<close> (conflict count and decision count). When the reconciliation of a pair of
  sheets returns, the conflict count it reports is the number of row-level calls of
  \<^verbatim>\<open>get_user_choice\<close> (prompt \<^verbatim>\<open>"\nResolve conflict"\<close>, five choices) that the log
  gained during that sheet, and it is the number of row indices at which the two rows
  differ, whether that number is 0, 1 or more. Field-level calls made by a merge are
  other entries of the log and are not counted.
\<close>

theorem conflicts_count_row_decisions:
  assumes "compare_sheet local_sheet remote_sheet w = Inr ((sh, n), w')"
  shows "row_asks w' = row_asks w + n \<and>
         n = length (filter (\<lambda>i. row_at (rows local_sheet) i \<noteq> row_at (rows remote_sheet) i)
                [0..<max (length (rows local_sheet)) (length (rows remote_sheet))])"
  using assms
  by (auto simp: compare_sheet_def Let_def split: sum.splits dest!: compare_rows_loop_counts)

theorem conflicts_count_row_decisions_witness:
  "compare_sheet
     \<lparr>headers = [''K'', ''V''], rows = [[''k''], [''a'', ''1''], [''z'']]\<rparr>
     \<lparr>headers = [''K'', ''V''], rows = [[''k''], [''a'', ''2''], [''y'']]\<rparr>
     \<lparr>stdin = [''3'', ''2'', ''1''], asked = []\<rparr> =
   Inr ((\<lparr>headers = [''K'', ''V''], rows = [[''k''], [''a'', ''2''], [''z'']]\<rparr>, 2),
        \<lparr>stdin = [],
         asked = [(row_prompt, row_choices), (''Choose'', [''1'', ''2'']),
                  (row_prompt, row_choices)]\<rparr>) \<and>
   row_asks \<lparr>stdin = [],
         asked = [(row_prompt, row_choices), (''Choose'', [''1'', ''2'']),
                  (row_prompt, row_choices)]\<rparr> =
   row_asks \<lparr>stdin = [''3'', ''2'', ''1''], asked = []\<rparr> + 2"
proof -
  have run: "compare_sheet
     \<lparr>headers = [''K'', ''V''], rows = [[''k''], [''a'', ''1''], [''z'']]\<rparr>
     \<lparr>headers = [''K'', ''V''], rows = [[''k''], [''a'', ''2''], [''y'']]\<rparr>
     \<lparr>stdin = [''3'', ''2'', ''1''], asked = []\<rparr> =
   Inr ((\<lparr>headers = [''K'', ''V''], rows = [[''k''], [''a'', ''2''], [''z'']]\<rparr>, 2),
        \<lparr>stdin = [],
         asked = [(row_prompt, row_choices), (''Choose'', [''1'', ''2'']),
                  (row_prompt, row_choices)]\<rparr>)"
    by (simp add: compare_sheet_def resolved_headers_def compare_row_def row_at_def
        get_user_choice_def row_choices_def row_prompt_def merge_rows_enhanced_def
        merge_field_def strip_def is_space_def cell_at_def any_cell_def upt_rec Let_def)
  from conflicts_count_row_decisions [OF run] run show ?thesis by simp
qed

text \<open>
  \<^bold>\<open>C9\<close> (keeping an absent side). At a row index beyond the local row count (and
  within the remote one), the answer \<^verbatim>\<open>"1"\<close> (keep local) appends no row: the round
  ends in the same state as with the answer \<^verbatim>\<open>"s"\<close> (skip), the resolved rows
  unchanged and the conflict counted. Symmetrically for the answer \<^verbatim>\<open>"2"\<close> (keep
  remote) at an index beyond the remote row count.
\<close>

theorem keeping_absent_side_drops_row:
  assumes "get_user_choice_loop row_choices (stdin w) = Inr (c, rest)"
  shows "(length local_rows \<le> i \<and> i < length remote_rows \<and> (c = ''1'' \<or> c = ''s'') \<longrightarrow>
            compare_row hdrs (row_at local_rows i) (row_at remote_rows i) (resolved_rows, n) w =
              Inr ((resolved_rows, n + 1),
                   w\<lparr>stdin := rest, asked := asked w @ [(row_prompt, row_choices)]\<rparr>)) \<and>
         (length remote_rows \<le> i \<and> i < length local_rows \<and> (c = ''2'' \<or> c = ''s'') \<longrightarrow>
            compare_row hdrs (row_at local_rows i) (row_at remote_rows i) (resolved_rows, n) w =
              Inr ((resolved_rows, n + 1),
                   w\<lparr>stdin := rest, asked := asked w @ [(row_prompt, row_choices)]\<rparr>))"
  using assms by (auto simp: compare_row_def row_at_def get_user_choice_def)

theorem keeping_absent_side_drops_row_witness:
  "get_user_choice_loop row_choices (stdin \<lparr>stdin = [''1''], asked = []\<rparr>) = Inr (''1'', []) \<and>
   compare_row [''H''] (row_at [] 0) (row_at [[''x'']] 0) ([], 0) \<lparr>stdin = [''1''], asked = []\<rparr> =
     Inr (([], 1), \<lparr>stdin = [], asked = [(row_prompt, row_choices)]\<rparr>) \<and>
   get_user_choice_loop row_choices (stdin \<lparr>stdin = [''2''], asked = []\<rparr>) = Inr (''2'', []) \<and>
   compare_row [''H''] (row_at [[''x'']] 0) (row_at [] 0) ([], 0) \<lparr>stdin = [''2''], asked = []\<rparr> =
     Inr (([], 1), \<lparr>stdin = [], asked = [(row_prompt, row_choices)]\<rparr>)"
proof -
  have c1: "get_user_choice_loop row_choices (stdin \<lparr>stdin = [''1''], asked = []\<rparr>) = Inr (''1'', [])"
    by (simp add: row_choices_def strip_def is_space_def)
  have c2: "get_user_choice_loop row_choices (stdin \<lparr>stdin = [''2''], asked = []\<rparr>) = Inr (''2'', [])"
    by (simp add: row_choices_def strip_def is_space_def)
  from keeping_absent_side_drops_row [OF c1, of "[]" 0 "[[''x'']]" "[''H'']" "[]" 0]
  have a: "compare_row [''H''] (row_at [] 0) (row_at [[''x'']] 0) ([], 0) \<lparr>stdin = [''1''], asked = []\<rparr> =
     Inr (([], 1), \<lparr>stdin = [], asked = [(row_prompt, row_choices)]\<rparr>)"
    by simp
  from keeping_absent_side_drops_row [OF c2, of "[[''x'']]" 0 "[]" "[''H'']" "[]" 0]
  have b: "compare_row [''H''] (row_at [[''x'']] 0) (row_at [] 0) ([], 0) \<lparr>stdin = [''2''], asked = []\<rparr> =
     Inr (([], 1), \<lparr>stdin = [], asked = [(row_prompt, row_choices)]\<rparr>)"
    by simp
  from c1 c2 a b show ?thesis by blast
qed

subsection \<open>Blank rows\<close>

lemma strip_Nil: "strip [] = []"
  by (simp add: strip_def)

lemma any_cell_Nil: "\<not> any_cell []"
  by (simp add: any_cell_def)

lemma blank_cell: "\<not> any_cell r \<Longrightarrow> strip (cell_at r i) = []"
  by (auto simp: any_cell_def list_ex_iff cell_at_def strip_Nil)

lemma any_cell_nth:
  assumes "any_cell r"
  shows "\<exists>j<length r. strip (cell_at r j) \<noteq> []"
proof -
  from assms obtain x where "x \<in> set r" and x: "strip x \<noteq> []"
    by (auto simp: any_cell_def list_ex_iff)
  then obtain j where "j < length r" and "r ! j = x"
    by (auto simp: in_set_conv_nth)
  with x have "j < length r \<and> strip (cell_at r j) \<noteq> []"
    by (simp add: cell_at_def)
  then show ?thesis by blast
qed

lemma blank_replicate: "\<not> any_cell (replicate k [])"
  by (auto simp: any_cell_def list_ex_iff strip_Nil)

lemma merge_rows_loop_blank:
  "\<not> any_cell l \<Longrightarrow> \<not> any_cell r \<Longrightarrow>
   merge_rows_loop l r is merged w = Inr (merged @ replicate (length is) [], w)"
proof (induction "is" arbitrary: merged)
  case Nil
  then show ?case by simp
next
  case (Cons i "is")
  have "merge_field (cell_at l i) (cell_at r i) w = Inr ([], w)"
    using Cons.prems by (simp add: merge_field_equal blank_cell)
  with Cons show ?case by (simp add: replicate_app_Cons_same)
qed

lemma merge_rows_enhanced_blank:
  assumes "\<not> any_cell l" and "\<not> any_cell r"
  shows "\<exists>res. merge_rows_enhanced hdrs (Some l) (Some r) w = Inr (res, w) \<and>
           (\<forall>m. res = Some m \<longrightarrow> \<not> any_cell m)"
proof (cases "l = [] \<or> r = []")
  case True
  with assms show ?thesis
    by (cases "l = []"; cases "r = []") (simp_all add: merge_rows_enhanced_def)
next
  case False
  with assms have "merge_rows_enhanced hdrs (Some l) (Some r) w =
      Inr (Some (replicate (max (length l) (length r)) []), w)"
    by (simp add: merge_rows_enhanced_both merge_upto_def merge_rows_loop_blank)
  then show ?thesis by (simp add: blank_replicate)
qed

lemma append_if_blank:
  "\<forall>m. res = Some m \<longrightarrow> \<not> any_cell m \<Longrightarrow>
   filter (\<lambda>r. r \<noteq> [] \<and> any_cell r) (append_if rs res) =
   filter (\<lambda>r. r \<noteq> [] \<and> any_cell r) rs"
  by (cases res) auto

text \<open>
  \<^bold>\<open>C10\<close> (two blank rows that differ). When the local and the remote row of an index
  are both blank (no cell is non-empty after trimming) but are not equal, the round
  counts a conflict and asks one row-level decision, and whatever the operator answers
  the rows that survive the blank-row filter of line 270 are those that survived it
  before the round: no row of this index reaches the resolved sheet.
\<close>

theorem blank_pair_is_conflict:
  assumes l: "\<not> any_cell l" and r: "\<not> any_cell r" and ne: "l \<noteq> r"
    and c: "get_user_choice_loop row_choices (stdin w) = Inr (c, rest)"
  shows "\<exists>rs'. compare_row hdrs (Some l) (Some r) (resolved_rows, n) w =
           Inr ((rs', n + 1), w\<lparr>stdin := rest, asked := asked w @ [(row_prompt, row_choices)]\<rparr>) \<and>
           filter (\<lambda>r. r \<noteq> [] \<and> any_cell r) rs' =
           filter (\<lambda>r. r \<noteq> [] \<and> any_cell r) resolved_rows"
proof -
  let ?w1 = "w\<lparr>stdin := rest, asked := asked w @ [(row_prompt, row_choices)]\<rparr>"
  have g: "get_user_choice row_prompt row_choices w = Inr (c, ?w1)"
    using c by (simp add: get_user_choice_def)
  from merge_rows_enhanced_blank [OF l r] obtain res3 where
    m3: "merge_rows_enhanced hdrs (Some l) (Some r) ?w1 = Inr (res3, ?w1)" and
    b3: "\<forall>m. res3 = Some m \<longrightarrow> \<not> any_cell m"
    by blast
  from merge_rows_enhanced_blank [OF r l] obtain res4 where
    m4: "merge_rows_enhanced hdrs (Some r) (Some l) ?w1 = Inr (res4, ?w1)" and
    b4: "\<forall>m. res4 = Some m \<longrightarrow> \<not> any_cell m"
    by blast
  show ?thesis
    using ne g m3 m4 l r append_if_blank [OF b3] append_if_blank [OF b4]
    by (simp add: compare_row_def)
qed

theorem blank_pair_is_conflict_witness:
  "\<not> any_cell ['' ''] \<and> \<not> any_cell [''''] \<and> ['' ''] \<noteq> [''''] \<and>
   get_user_choice_loop row_choices (stdin \<lparr>stdin = [''1''], asked = []\<rparr>) = Inr (''1'', []) \<and>
   compare_row [] (Some ['' '']) (Some ['''']) ([], 0) \<lparr>stdin = [''1''], asked = []\<rparr> =
     Inr (([['' '']], 1), \<lparr>stdin = [], asked = [(row_prompt, row_choices)]\<rparr>) \<and>
   filter (\<lambda>r. r \<noteq> [] \<and> any_cell r) [['' '']] = []"
proof -
  let ?w = "\<lparr>stdin = [''1''], asked = []\<rparr>"
  have l: "\<not> any_cell ['' '']" by (simp add: any_cell_def strip_def is_space_def)
  have r: "\<not> any_cell ['''']" by (simp add: any_cell_def strip_def)
  have ne: "['' ''] \<noteq> ['''']" by simp
  have c: "get_user_choice_loop row_choices (stdin ?w) = Inr (''1'', [])"
    by (simp add: row_choices_def strip_def is_space_def)
  from blank_pair_is_conflict [OF l r ne c, of "[]" "[]" 0] obtain rs' where
    a: "compare_row [] (Some ['' '']) (Some ['''']) ([], 0) ?w =
          Inr ((rs', 1), \<lparr>stdin = [], asked = [(row_prompt, row_choices)]\<rparr>)" and
    b: "filter (\<lambda>r. r \<noteq> [] \<and> any_cell r) rs' = []"
    by auto
  have "compare_row [] (Some ['' '']) (Some ['''']) ([], 0) ?w =
          Inr (([['' '']], 1), \<lparr>stdin = [], asked = [(row_prompt, row_choices)]\<rparr>)"
    by (simp add: compare_row_def get_user_choice_def row_choices_def strip_def is_space_def)
  with a b l r ne c show ?thesis by simp
qed

subsection \<open>Rows kept at a conflict\<close>

lemma has_content_Some: "has_content x \<longleftrightarrow> (\<exists>r. x = Some r \<and> any_cell r)"
  by (cases x) simp_all

lemma has_content_truthy: "has_content x \<Longrightarrow> truthy x"
  by (cases x) (auto simp: any_cell_Nil)

lemma merged_cell_content:
  assumes f: "merge_field lv rv w = Inr (v, w')" and c: "strip lv \<noteq> [] \<or> strip rv \<noteq> []"
  shows "strip v \<noteq> []"
proof -
  from merge_field_value [OF f] c have "v \<noteq> []" and "v = strip lv \<or> v = strip rv"
    by auto
  then show ?thesis by (auto simp: strip_strip)
qed

lemma merge_keeps_content:
  assumes run: "merge_rows_enhanced hdrs lrow rrow w = Inr (res, w')"
    and c: "has_content lrow \<or> has_content rrow"
  shows "\<exists>m. res = Some m \<and> any_cell m"
proof (cases "truthy lrow \<and> truthy rrow")
  case False
  show ?thesis
  proof (cases "truthy lrow")
    case True
    with False have "\<not> truthy rrow" by simp
    with True run c have "res = lrow" "has_content lrow"
      by (auto simp: merge_rows_enhanced_def dest: has_content_truthy)
    then show ?thesis by (simp add: has_content_Some)
  next
    case False
    with c have r: "has_content rrow" "truthy rrow"
      by (auto dest: has_content_truthy)
    with False run have "res = rrow"
      by (simp add: merge_rows_enhanced_def)
    with r show ?thesis by (simp add: has_content_Some)
  qed
next
  case True
  then obtain l r where lr: "lrow = Some l" "rrow = Some r" and l: "l \<noteq> []" and r: "r \<noteq> []"
    by (cases lrow; cases rrow) auto
  from c lr have "any_cell l \<or> any_cell r" by simp
  then have "\<exists>j. j < max (length l) (length r) \<and>
      (strip (cell_at l j) \<noteq> [] \<or> strip (cell_at r j) \<noteq> [])"
  proof
    assume "any_cell l"
    from any_cell_nth [OF this] obtain j where "j < length l" "strip (cell_at l j) \<noteq> []"
      by blast
    then have "j < max (length l) (length r) \<and>
      (strip (cell_at l j) \<noteq> [] \<or> strip (cell_at r j) \<noteq> [])" by simp
    then show ?thesis by blast
  next
    assume "any_cell r"
    from any_cell_nth [OF this] obtain j where "j < length r" "strip (cell_at r j) \<noteq> []"
      by blast
    then have "j < max (length l) (length r) \<and>
      (strip (cell_at l j) \<noteq> [] \<or> strip (cell_at r j) \<noteq> [])" by simp
    then show ?thesis by blast
  qed
  then obtain j where j: "j < max (length l) (length r)" and
    cj: "strip (cell_at l j) \<noteq> [] \<or> strip (cell_at r j) \<noteq> []"
    by blast
  from run lr have run': "merge_rows_enhanced hdrs (Some l) (Some r) w = Inr (res, w')" by simp
  from merge_position [OF run' l r j] obtain m w1 w2 where
    res: "res = Some m" and len: "length m = max (length l) (length r)" and
    f: "merge_field (cell_at l j) (cell_at r j) w1 = Inr (m ! j, w2)"
    by blast
  from merged_cell_content [OF f cj] have "strip (m ! j) \<noteq> []" .
  moreover from j len have "m ! j \<in> set m" by simp
  ultimately have "any_cell m" by (auto simp: any_cell_def list_ex_iff)
  with res show ?thesis by simp
qed

lemma any_cell_not_Nil: "any_cell r \<Longrightarrow> r \<noteq> []"
  by (auto simp: any_cell_Nil)

lemma compare_row_choice:
  assumes "lrow \<noteq> rrow" and "get_user_choice row_prompt row_choices w = Inr (c, w1)"
  shows "compare_row hdrs lrow rrow (rs, n) w =
     (if c = ''1'' \<and> truthy lrow then Inr ((rs @ [the lrow], n + 1), w1)
      else if c = ''2'' \<and> truthy rrow then Inr ((rs @ [the rrow], n + 1), w1)
      else if c = ''3'' then
        (case merge_rows_enhanced hdrs lrow rrow w1 of
           Inl e \<Rightarrow> Inl e
         | Inr (merged, w2) \<Rightarrow> Inr ((append_if rs merged, n + 1), w2))
      else if c = ''4'' then
        (case merge_rows_enhanced hdrs rrow lrow w1 of
           Inl e \<Rightarrow> Inl e
         | Inr (merged, w2) \<Rightarrow> Inr ((append_if rs merged, n + 1), w2))
      else Inr ((rs, n + 1), w1))"
  using assms by (simp add: compare_row_def)

lemma compare_row_keeps:
  assumes ne: "lrow \<noteq> rrow"
    and step: "compare_row hdrs lrow rrow (rs, n) w = Inr ((rs', n'), w')"
  shows "\<exists>c rest. get_user_choice_loop row_choices (stdin w) = Inr (c, rest) \<and>
           (\<forall>l. c = ''1'' \<and> lrow = Some l \<and> any_cell l \<longrightarrow> rs' = rs @ [l]) \<and>
           (\<forall>r. c = ''2'' \<and> rrow = Some r \<and> any_cell r \<longrightarrow> rs' = rs @ [r]) \<and>
           ((c = ''3'' \<or> c = ''4'') \<and> (has_content lrow \<or> has_content rrow) \<longrightarrow>
              (\<exists>m. any_cell m \<and> rs' = rs @ [m]))"
proof -
  from ne step obtain c w1 where
    g: "get_user_choice row_prompt row_choices w = Inr (c, w1)"
    by (auto simp: compare_row_def split: sum.splits)
  then obtain rest where
    loop: "get_user_choice_loop row_choices (stdin w) = Inr (c, rest)"
    by (auto simp: get_user_choice_Inr)
  note step' = step [unfolded compare_row_choice [OF ne g]]
  have k1: "rs' = rs @ [l]" if "c = ''1''" "lrow = Some l" "any_cell l" for l
    using that step' any_cell_not_Nil [of l] by simp
  have k2: "rs' = rs @ [r]" if "c = ''2''" "rrow = Some r" "any_cell r" for r
    using that step' any_cell_not_Nil [of r] by simp
  have k3: "\<exists>m. any_cell m \<and> rs' = rs @ [m]"
    if c3: "c = ''3''" and hc: "has_content lrow \<or> has_content rrow"
  proof -
    from c3 step' obtain res w2 where
      m: "merge_rows_enhanced hdrs lrow rrow w1 = Inr (res, w2)" and
      rs': "rs' = append_if rs res"
      by (auto split: sum.splits)
    from merge_keeps_content [OF m hc] obtain mm where "res = Some mm" "any_cell mm" by blast
    with rs' any_cell_not_Nil [of mm] show ?thesis by auto
  qed
  have k4: "\<exists>m. any_cell m \<and> rs' = rs @ [m]"
    if c4: "c = ''4''" and hc: "has_content lrow \<or> has_content rrow"
  proof -
    from c4 step' obtain res w2 where
      m: "merge_rows_enhanced hdrs rrow lrow w1 = Inr (res, w2)" and
      rs': "rs' = append_if rs res"
      by (auto split: sum.splits)
    from hc have "has_content rrow \<or> has_content lrow" by blast
    from merge_keeps_content [OF m this] obtain mm where "res = Some mm" "any_cell mm" by blast
    with rs' any_cell_not_Nil [of mm] show ?thesis by auto
  qed
  from loop k1 k2 k3 k4 show ?thesis by blast
qed

lemma compare_row_merged:
  assumes ne: "lrow \<noteq> rrow"
    and step: "compare_row hdrs lrow rrow (rs, n) w = Inr ((rs', n'), w')"
    and loop: "get_user_choice_loop row_choices (stdin w) = Inr (c, rest)"
    and hc: "has_content lrow \<or> has_content rrow"
  shows "(c = ''3'' \<longrightarrow>
           (\<exists>m w2. merge_rows_enhanced hdrs lrow rrow
                      (w\<lparr>stdin := rest, asked := asked w @ [(row_prompt, row_choices)]\<rparr>)
                      = Inr (Some m, w2) \<and> any_cell m \<and> rs' = rs @ [m])) \<and>
         (c = ''4'' \<longrightarrow>
           (\<exists>m w2. merge_rows_enhanced hdrs rrow lrow
                      (w\<lparr>stdin := rest, asked := asked w @ [(row_prompt, row_choices)]\<rparr>)
                      = Inr (Some m, w2) \<and> any_cell m \<and> rs' = rs @ [m]))"
proof -
  let ?w1 = "w\<lparr>stdin := rest, asked := asked w @ [(row_prompt, row_choices)]\<rparr>"
  have g: "get_user_choice row_prompt row_choices w = Inr (c, ?w1)"
    using loop by (simp add: get_user_choice_def)
  note step' = step [unfolded compare_row_choice [OF ne g]]
  have k3: "\<exists>m w2. merge_rows_enhanced hdrs lrow rrow ?w1 = Inr (Some m, w2) \<and>
              any_cell m \<and> rs' = rs @ [m]" if c3: "c = ''3''"
  proof -
    from c3 step' obtain res w2 where
      m: "merge_rows_enhanced hdrs lrow rrow ?w1 = Inr (res, w2)" and
      rs': "rs' = append_if rs res"
      by (auto split: sum.splits)
    from merge_keeps_content [OF m hc] obtain mm where mm: "res = Some mm" "any_cell mm"
      by blast
    with rs' any_cell_not_Nil [of mm] have "rs' = rs @ [mm]" by simp
    with m mm show ?thesis by blast
  qed
  have k4: "\<exists>m w2. merge_rows_enhanced hdrs rrow lrow ?w1 = Inr (Some m, w2) \<and>
              any_cell m \<and> rs' = rs @ [m]" if c4: "c = ''4''"
  proof -
    from c4 step' obtain res w2 where
      m: "merge_rows_enhanced hdrs rrow lrow ?w1 = Inr (res, w2)" and
      rs': "rs' = append_if rs res"
      by (auto split: sum.splits)
    from hc have "has_content rrow \<or> has_content lrow" by blast
    from merge_keeps_content [OF m this] obtain mm where mm: "res = Some mm" "any_cell mm"
      by blast
    with rs' any_cell_not_Nil [of mm] have "rs' = rs @ [mm]" by simp
    with m mm show ?thesis by blast
  qed
  from k3 k4 show ?thesis by blast
qed

lemma sheet_round:
  assumes sheet: "compare_sheet ls rs w = Inr ((sh, n), w_end)"
    and i: "i < max (length (rows ls)) (length (rows rs))"
  shows "\<exists>before k wi mid k' wi' more.
           compare_upto ls rs i w = Inr ((before, k), wi) \<and>
           compare_row (resolved_headers ls rs) (row_at (rows ls) i) (row_at (rows rs) i)
             (before, k) wi = Inr ((mid, k'), wi') \<and>
           rows sh = filter (\<lambda>r. r \<noteq> [] \<and> any_cell r) (mid @ more)"
proof -
  let ?n = "max (length (rows ls)) (length (rows rs))"
  let ?h = "resolved_headers ls rs"
  from sheet obtain final where
    full: "compare_rows_loop ?h (rows ls) (rows rs) [0..<?n] ([], 0) w = Inr ((final, n), w_end)"
    and sh: "rows sh = filter (\<lambda>r. r \<noteq> [] \<and> any_cell r) final"
    by (auto simp: compare_sheet_def Let_def split: sum.splits)
  have "[0..<?n] = [0..<i] @ [i] @ [Suc i..<?n]"
    using i upt_add_eq_append [of 0 i "?n - i"] by (simp add: upt_conv_Cons)
  with full obtain before k wi mid k' wi' where
    a: "compare_rows_loop ?h (rows ls) (rows rs) [0..<i] ([], 0) w = Inr ((before, k), wi)" and
    b: "compare_row ?h (row_at (rows ls) i) (row_at (rows rs) i) (before, k) wi
          = Inr ((mid, k'), wi')" and
    c: "compare_rows_loop ?h (rows ls) (rows rs) [Suc i..<?n] (mid, k') wi'
          = Inr ((final, n), w_end)"
    by (auto simp: compare_rows_loop_append split: sum.splits)
  from compare_rows_loop_counts [OF c] obtain more where "final = mid @ more" by blast
  with a b sh show ?thesis by (auto simp: compare_upto_def)
qed

text \<open>
  \<^bold>\<open>C1\<close>, as amended. Let the reconciliation of a pair of sheets return, and let
  \<open>i\<close> be a row index at which the two rows differ; \<open>before\<close> are the rows
  collected from the indices below \<open>i\<close> and \<open>c\<close> is the operator's answer to the
  row-level decision of index \<open>i\<close>. Then the resolved sheet holds a row for index
  \<open>i\<close>, right after the rows kept from the indices below \<open>i\<close>, in these cases:
  the answer is \<^verbatim>\<open>"1"\<close> and the local row is present and not blank (the row is the local
  row); the answer is \<^verbatim>\<open>"2"\<close> and the remote row is present and not blank (the row is
  the remote row); the answer is \<^verbatim>\<open>"3"\<close> or \<^verbatim>\<open>"4"\<close> and one of the two rows is
  present and not blank: the row is then the row that \<^verbatim>\<open>merge_rows_enhanced\<close> returns,
  called on the terminal as the row-level decision left it, with the local row first for
  \<^verbatim>\<open>"3"\<close> and the remote row first for \<^verbatim>\<open>"4"\<close>, and this merged row is not blank.
\<close>

theorem conflicting_row_kept:
  assumes sheet: "compare_sheet ls rs w = Inr ((sh, n), w_end)"
    and i: "i < max (length (rows ls)) (length (rows rs))"
    and differ: "row_at (rows ls) i \<noteq> row_at (rows rs) i"
  shows "\<exists>before k wi c rest.
           compare_upto ls rs i w = Inr ((before, k), wi) \<and>
           get_user_choice_loop row_choices (stdin wi) = Inr (c, rest) \<and>
           (\<forall>l. c = ''1'' \<and> row_at (rows ls) i = Some l \<and> any_cell l \<longrightarrow>
              (\<exists>later. rows sh = filter (\<lambda>r. r \<noteq> [] \<and> any_cell r) before @ l # later)) \<and>
           (\<forall>r. c = ''2'' \<and> row_at (rows rs) i = Some r \<and> any_cell r \<longrightarrow>
              (\<exists>later. rows sh = filter (\<lambda>r. r \<noteq> [] \<and> any_cell r) before @ r # later)) \<and>
           (c = ''3'' \<and>
            (has_content (row_at (rows ls) i) \<or> has_content (row_at (rows rs) i)) \<longrightarrow>
              (\<exists>m w2 later.
                 merge_rows_enhanced (resolved_headers ls rs)
                   (row_at (rows ls) i) (row_at (rows rs) i)
                   (wi\<lparr>stdin := rest, asked := asked wi @ [(row_prompt, row_choices)]\<rparr>)
                   = Inr (Some m, w2) \<and>
                 any_cell m \<and>
                 rows sh = filter (\<lambda>r. r \<noteq> [] \<and> any_cell r) before @ m # later)) \<and>
           (c = ''4'' \<and>
            (has_content (row_at (rows ls) i) \<or> has_content (row_at (rows rs) i)) \<longrightarrow>
              (\<exists>m w2 later.
                 merge_rows_enhanced (resolved_headers ls rs)
                   (row_at (rows rs) i) (row_at (rows ls) i)
                   (wi\<lparr>stdin := rest, asked := asked wi @ [(row_prompt, row_choices)]\<rparr>)
                   = Inr (Some m, w2) \<and>
                 any_cell m \<and>
                 rows sh = filter (\<lambda>r. r \<noteq> [] \<and> any_cell r) before @ m # later))"
proof -
  let ?h = "resolved_headers ls rs"
  let ?l = "row_at (rows ls) i"
  let ?r = "row_at (rows rs) i"
  from sheet_round [OF sheet i] obtain before k wi mid k' wi' more where
    a: "compare_upto ls rs i w = Inr ((before, k), wi)" and
    b: "compare_row ?h ?l ?r (before, k) wi = Inr ((mid, k'), wi')" and
    sh: "rows sh = filter (\<lambda>r. r \<noteq> [] \<and> any_cell r) (mid @ more)"
    by blast
  from compare_row_keeps [OF differ b] obtain c rest where
    loop: "get_user_choice_loop row_choices (stdin wi) = Inr (c, rest)" and
    k1: "\<forall>l. c = ''1'' \<and> ?l = Some l \<and> any_cell l \<longrightarrow> mid = before @ [l]" and
    k2: "\<forall>r. c = ''2'' \<and> ?r = Some r \<and> any_cell r \<longrightarrow> mid = before @ [r]"
    by blast
  let ?w1 = "wi\<lparr>stdin := rest, asked := asked wi @ [(row_prompt, row_choices)]\<rparr>"
  have placed: "\<exists>later. rows sh = filter (\<lambda>r. r \<noteq> [] \<and> any_cell r) before @ m # later"
    if "mid = before @ [m]" "any_cell m" for m
    using that sh any_cell_not_Nil [of m] by simp
  have c1: "\<forall>l. c = ''1'' \<and> ?l = Some l \<and> any_cell l \<longrightarrow>
              (\<exists>later. rows sh = filter (\<lambda>r. r \<noteq> [] \<and> any_cell r) before @ l # later)"
    using k1 placed by simp
  have c2: "\<forall>r. c = ''2'' \<and> ?r = Some r \<and> any_cell r \<longrightarrow>
              (\<exists>later. rows sh = filter (\<lambda>r. r \<noteq> [] \<and> any_cell r) before @ r # later)"
    using k2 placed by simp
  have c3: "c = ''3'' \<and> (has_content ?l \<or> has_content ?r) \<longrightarrow>
              (\<exists>m w2 later. merge_rows_enhanced ?h ?l ?r ?w1 = Inr (Some m, w2) \<and>
                 any_cell m \<and>
                 rows sh = filter (\<lambda>r. r \<noteq> [] \<and> any_cell r) before @ m # later)"
  proof
    assume h: "c = ''3'' \<and> (has_content ?l \<or> has_content ?r)"
    then have hc: "has_content ?l \<or> has_content ?r" ..
    from compare_row_merged [OF differ b loop hc] h obtain m w2 where
      m: "merge_rows_enhanced ?h ?l ?r ?w1 = Inr (Some m, w2)" "any_cell m" "mid = before @ [m]"
      by blast
    from placed [OF m(3) m(2)] obtain later where
      "rows sh = filter (\<lambda>r. r \<noteq> [] \<and> any_cell r) before @ m # later" ..
    with m(1,2) show "\<exists>m w2 later. merge_rows_enhanced ?h ?l ?r ?w1 = Inr (Some m, w2) \<and>
                 any_cell m \<and>
                 rows sh = filter (\<lambda>r. r \<noteq> [] \<and> any_cell r) before @ m # later"
      by (intro exI conjI)
  qed
  have c4: "c = ''4'' \<and> (has_content ?l \<or> has_content ?r) \<longrightarrow>
              (\<exists>m w2 later. merge_rows_enhanced ?h ?r ?l ?w1 = Inr (Some m, w2) \<and>
                 any_cell m \<and>
                 rows sh = filter (\<lambda>r. r \<noteq> [] \<and> any_cell r) before @ m # later)"
  proof
    assume h: "c = ''4'' \<and> (has_content ?l \<or> has_content ?r)"
    then have hc: "has_content ?l \<or> has_content ?r" ..
    from compare_row_merged [OF differ b loop hc] h obtain m w2 where
      m: "merge_rows_enhanced ?h ?r ?l ?w1 = Inr (Some m, w2)" "any_cell m" "mid = before @ [m]"
      by blast
    from placed [OF m(3) m(2)] obtain later where
      "rows sh = filter (\<lambda>r. r \<noteq> [] \<and> any_cell r) before @ m # later" ..
    with m(1,2) show "\<exists>m w2 later. merge_rows_enhanced ?h ?r ?l ?w1 = Inr (Some m, w2) \<and>
                 any_cell m \<and>
                 rows sh = filter (\<lambda>r. r \<noteq> [] \<and> any_cell r) before @ m # later"
      by (intro exI conjI)
  qed
  show ?thesis
    by (intro exI conjI) (rule a loop c1 c2 c3 c4)+
qed

theorem conflicting_row_kept_witness:
  "compare_sheet
     \<lparr>headers = [''K'', ''V''],
      rows = [[''a'', ''1''], [''b'', ''1''], [''c'', ''1''], [''d'', ''1'']]\<rparr>
     \<lparr>headers = [''K'', ''V''],
      rows = [[''a'', ''2''], [''b'', ''2''], [''c'', ''2''], [''d'', ''2'']]\<rparr>
     \<lparr>stdin = [''1'', ''2'', ''3'', ''1'', ''4'', ''1''], asked = []\<rparr> =
   Inr ((\<lparr>headers = [''K'', ''V''],
          rows = [[''a'', ''1''], [''b'', ''2''], [''c'', ''1''], [''d'', ''2'']]\<rparr>, 4),
        \<lparr>stdin = [],
         asked = [(row_prompt, row_choices), (row_prompt, row_choices),
                  (row_prompt, row_choices), (''Choose'', [''1'', ''2'']),
                  (row_prompt, row_choices), (''Choose'', [''1'', ''2''])]\<rparr>) \<and>
   (\<exists>later. [[''a'', ''1''], [''b'', ''2''], [''c'', ''1''], [''d'', ''2'']] =
      filter (\<lambda>r. r \<noteq> [] \<and> any_cell r) [] @ [''a'', ''1''] # later) \<and>
   (\<exists>later. [[''a'', ''1''], [''b'', ''2''], [''c'', ''1''], [''d'', ''2'']] =
      filter (\<lambda>r. r \<noteq> [] \<and> any_cell r) [[''a'', ''1'']] @ [''b'', ''2''] # later) \<and>
   (\<exists>w2 later.
      merge_rows_enhanced [''K'', ''V''] (Some [''c'', ''1'']) (Some [''c'', ''2''])
        \<lparr>stdin = [''1'', ''4'', ''1''],
         asked = [(row_prompt, row_choices), (row_prompt, row_choices),
                  (row_prompt, row_choices)]\<rparr> = Inr (Some [''c'', ''1''], w2) \<and>
      [[''a'', ''1''], [''b'', ''2''], [''c'', ''1''], [''d'', ''2'']] =
        filter (\<lambda>r. r \<noteq> [] \<and> any_cell r) [[''a'', ''1''], [''b'', ''2'']] @
        [''c'', ''1''] # later) \<and>
   (\<exists>w2 later.
      merge_rows_enhanced [''K'', ''V''] (Some [''d'', ''2'']) (Some [''d'', ''1''])
        \<lparr>stdin = [''1''],
         asked = [(row_prompt, row_choices), (row_prompt, row_choices),
                  (row_prompt, row_choices), (''Choose'', [''1'', ''2'']),
                  (row_prompt, row_choices)]\<rparr> = Inr (Some [''d'', ''2''], w2) \<and>
      [[''a'', ''1''], [''b'', ''2''], [''c'', ''1''], [''d'', ''2'']] =
        filter (\<lambda>r. r \<noteq> [] \<and> any_cell r)
          [[''a'', ''1''], [''b'', ''2''], [''c'', ''1'']] @ [''d'', ''2''] # later)"
proof -
  let ?L = "\<lparr>headers = [''K'', ''V''],
      rows = [[''a'', ''1''], [''b'', ''1''], [''c'', ''1''], [''d'', ''1'']]\<rparr>"
  let ?R = "\<lparr>headers = [''K'', ''V''],
      rows = [[''a'', ''2''], [''b'', ''2''], [''c'', ''2''], [''d'', ''2'']]\<rparr>"
  let ?w = "\<lparr>stdin = [''1'', ''2'', ''3'', ''1'', ''4'', ''1''], asked = []\<rparr>"
  let ?S = "\<lparr>headers = [''K'', ''V''],
          rows = [[''a'', ''1''], [''b'', ''2''], [''c'', ''1''], [''d'', ''2'']]\<rparr>"
  let ?ask = "(row_prompt, row_choices)"
  let ?w2 = "\<lparr>stdin = [''3'', ''1'', ''4'', ''1''], asked = [?ask, ?ask]\<rparr>"
  let ?w3 = "\<lparr>stdin = [''4'', ''1''],
              asked = [?ask, ?ask, ?ask, (''Choose'', [''1'', ''2''])]\<rparr>"
  have run: "compare_sheet ?L ?R ?w =
      Inr ((?S, 4),
        \<lparr>stdin = [],
         asked = [?ask, ?ask, ?ask, (''Choose'', [''1'', ''2'']),
                  ?ask, (''Choose'', [''1'', ''2''])]\<rparr>)"
    by (simp add: compare_sheet_def resolved_headers_def compare_row_def row_at_def
        get_user_choice_def row_choices_def row_prompt_def merge_rows_enhanced_def
        merge_field_def strip_def is_space_def cell_at_def any_cell_def upt_rec Let_def)
  have hd: "resolved_headers ?L ?R = [''K'', ''V'']" by (simp add: resolved_headers_def)
  have up0: "compare_upto ?L ?R 0 ?w = Inr (([], 0), ?w)"
    by (simp add: compare_upto_def)
  have up1: "compare_upto ?L ?R 1 ?w =
      Inr (([[''a'', ''1'']], 1),
           \<lparr>stdin = [''2'', ''3'', ''1'', ''4'', ''1''], asked = [?ask]\<rparr>)"
    by (simp add: compare_upto_def resolved_headers_def compare_row_def row_at_def
        get_user_choice_def row_choices_def row_prompt_def strip_def is_space_def upt_rec
        Let_def)
  have up2: "compare_upto ?L ?R 2 ?w = Inr (([[''a'', ''1''], [''b'', ''2'']], 2), ?w2)"
    by (simp add: compare_upto_def resolved_headers_def compare_row_def row_at_def
        get_user_choice_def row_choices_def row_prompt_def strip_def is_space_def upt_rec
        Let_def)
  have up3: "compare_upto ?L ?R 3 ?w =
      Inr (([[''a'', ''1''], [''b'', ''2''], [''c'', ''1'']], 3), ?w3)"
    by (simp add: compare_upto_def resolved_headers_def compare_row_def row_at_def
        get_user_choice_def row_choices_def row_prompt_def merge_rows_enhanced_def
        merge_field_def strip_def is_space_def cell_at_def upt_rec Let_def)
  have ac: "any_cell [''a'', ''1'']" "any_cell [''b'', ''2'']"
    "any_cell [''c'', ''1'']" "any_cell [''d'', ''1'']"
    by (simp_all add: any_cell_def strip_def is_space_def)
  have i: "0 < max (length (rows ?L)) (length (rows ?R))"
    "1 < max (length (rows ?L)) (length (rows ?R))"
    "2 < max (length (rows ?L)) (length (rows ?R))"
    "3 < max (length (rows ?L)) (length (rows ?R))"
    by simp_all
  have d: "row_at (rows ?L) 0 \<noteq> row_at (rows ?R) 0" "row_at (rows ?L) 1 \<noteq> row_at (rows ?R) 1"
    "row_at (rows ?L) 2 \<noteq> row_at (rows ?R) 2" "row_at (rows ?L) 3 \<noteq> row_at (rows ?R) 3"
    by (simp_all add: row_at_def)
  have r: "row_at (rows ?L) 0 = Some [''a'', ''1'']" "row_at (rows ?R) 1 = Some [''b'', ''2'']"
    "row_at (rows ?L) 2 = Some [''c'', ''1'']" "row_at (rows ?R) 2 = Some [''c'', ''2'']"
    "row_at (rows ?L) 3 = Some [''d'', ''1'']" "row_at (rows ?R) 3 = Some [''d'', ''2'']"
    by (simp_all add: row_at_def)
  have a1: "\<exists>later. rows ?S = filter (\<lambda>r. r \<noteq> [] \<and> any_cell r) [] @ [''a'', ''1''] # later"
  proof -
    from conflicting_row_kept [OF run i(1) d(1)] obtain before k wi c rest where
      a: "compare_upto ?L ?R 0 ?w = Inr ((before, k), wi)" and
      b: "get_user_choice_loop row_choices (stdin wi) = Inr (c, rest)" and
      k: "\<forall>l. c = ''1'' \<and> row_at (rows ?L) 0 = Some l \<and> any_cell l \<longrightarrow>
           (\<exists>later. rows ?S = filter (\<lambda>r. r \<noteq> [] \<and> any_cell r) before @ l # later)"
      by blast
    from a up0 have e: "before = []" "wi = ?w" by simp_all
    from b e have "c = ''1''" by (simp add: row_choices_def strip_def is_space_def Let_def)
    with k r(1) ac(1) e show ?thesis by blast
  qed
  have a2: "\<exists>later. rows ?S =
      filter (\<lambda>r. r \<noteq> [] \<and> any_cell r) [[''a'', ''1'']] @ [''b'', ''2''] # later"
  proof -
    from conflicting_row_kept [OF run i(2) d(2)] obtain before k wi c rest where
      a: "compare_upto ?L ?R 1 ?w = Inr ((before, k), wi)" and
      b: "get_user_choice_loop row_choices (stdin wi) = Inr (c, rest)" and
      k: "\<forall>r. c = ''2'' \<and> row_at (rows ?R) 1 = Some r \<and> any_cell r \<longrightarrow>
           (\<exists>later. rows ?S = filter (\<lambda>r. r \<noteq> [] \<and> any_cell r) before @ r # later)"
      by blast
    from a up1 have e: "before = [[''a'', ''1'']]"
      "wi = \<lparr>stdin = [''2'', ''3'', ''1'', ''4'', ''1''], asked = [?ask]\<rparr>" by simp_all
    from b e have "c = ''2''" by (simp add: row_choices_def strip_def is_space_def Let_def)
    with k r(2) ac(2) e show ?thesis by blast
  qed
  have a3: "\<exists>w2 later.
      merge_rows_enhanced [''K'', ''V''] (Some [''c'', ''1'']) (Some [''c'', ''2''])
        \<lparr>stdin = [''1'', ''4'', ''1''], asked = [?ask, ?ask, ?ask]\<rparr>
        = Inr (Some [''c'', ''1''], w2) \<and>
      rows ?S = filter (\<lambda>r. r \<noteq> [] \<and> any_cell r) [[''a'', ''1''], [''b'', ''2'']] @
        [''c'', ''1''] # later"
  proof -
    from conflicting_row_kept [OF run i(3) d(3)] obtain before k wi c rest where
      a: "compare_upto ?L ?R 2 ?w = Inr ((before, k), wi)" and
      b: "get_user_choice_loop row_choices (stdin wi) = Inr (c, rest)" and
      k: "c = ''3'' \<and>
          (has_content (row_at (rows ?L) 2) \<or> has_content (row_at (rows ?R) 2)) \<longrightarrow>
            (\<exists>m w2 later.
               merge_rows_enhanced (resolved_headers ?L ?R)
                 (row_at (rows ?L) 2) (row_at (rows ?R) 2)
                 (wi\<lparr>stdin := rest, asked := asked wi @ [?ask]\<rparr>) = Inr (Some m, w2) \<and>
               any_cell m \<and>
               rows ?S = filter (\<lambda>r. r \<noteq> [] \<and> any_cell r) before @ m # later)"
      by blast
    from a up2 have e: "before = [[''a'', ''1''], [''b'', ''2'']]" "wi = ?w2" by simp_all
    from b e have c: "c = ''3''" "rest = [''1'', ''4'', ''1'']"
      by (simp_all add: row_choices_def strip_def is_space_def Let_def)
    have w1: "wi\<lparr>stdin := rest, asked := asked wi @ [?ask]\<rparr> =
        \<lparr>stdin = [''1'', ''4'', ''1''], asked = [?ask, ?ask, ?ask]\<rparr>"
      using e c by simp
    have ev: "merge_rows_enhanced [''K'', ''V''] (Some [''c'', ''1'']) (Some [''c'', ''2''])
        \<lparr>stdin = [''1'', ''4'', ''1''], asked = [?ask, ?ask, ?ask]\<rparr> =
        Inr (Some [''c'', ''1''],
             \<lparr>stdin = [''4'', ''1''],
              asked = [?ask, ?ask, ?ask, (''Choose'', [''1'', ''2''])]\<rparr>)"
      by (simp add: merge_rows_enhanced_def merge_field_def get_user_choice_def strip_def
          is_space_def cell_at_def upt_rec Let_def)
    from k c(1) r(3) ac(3) obtain m w2 later where
      m: "merge_rows_enhanced (resolved_headers ?L ?R)
            (row_at (rows ?L) 2) (row_at (rows ?R) 2)
            (wi\<lparr>stdin := rest, asked := asked wi @ [?ask]\<rparr>) = Inr (Some m, w2)" and
      p: "rows ?S = filter (\<lambda>r. r \<noteq> [] \<and> any_cell r) before @ m # later"
      by auto
    from m ev have "m = [''c'', ''1'']" unfolding hd r w1 by simp
    with p e ev show ?thesis by blast
  qed
  have a4: "\<exists>w2 later.
      merge_rows_enhanced [''K'', ''V''] (Some [''d'', ''2'']) (Some [''d'', ''1''])
        \<lparr>stdin = [''1''],
         asked = [?ask, ?ask, ?ask, (''Choose'', [''1'', ''2'']), ?ask]\<rparr>
        = Inr (Some [''d'', ''2''], w2) \<and>
      rows ?S = filter (\<lambda>r. r \<noteq> [] \<and> any_cell r)
          [[''a'', ''1''], [''b'', ''2''], [''c'', ''1'']] @ [''d'', ''2''] # later"
  proof -
    from conflicting_row_kept [OF run i(4) d(4)] obtain before k wi c rest where
      a: "compare_upto ?L ?R 3 ?w = Inr ((before, k), wi)" and
      b: "get_user_choice_loop row_choices (stdin wi) = Inr (c, rest)" and
      k: "c = ''4'' \<and>
          (has_content (row_at (rows ?L) 3) \<or> has_content (row_at (rows ?R) 3)) \<longrightarrow>
            (\<exists>m w2 later.
               merge_rows_enhanced (resolved_headers ?L ?R)
                 (row_at (rows ?R) 3) (row_at (rows ?L) 3)
                 (wi\<lparr>stdin := rest, asked := asked wi @ [?ask]\<rparr>) = Inr (Some m, w2) \<and>
               any_cell m \<and>
               rows ?S = filter (\<lambda>r. r \<noteq> [] \<and> any_cell r) before @ m # later)"
      by blast
    from a up3 have e: "before = [[''a'', ''1''], [''b'', ''2''], [''c'', ''1'']]" "wi = ?w3"
      by simp_all
    from b e have c: "c = ''4''" "rest = [''1'']"
      by (simp_all add: row_choices_def strip_def is_space_def Let_def)
    have w1: "wi\<lparr>stdin := rest, asked := asked wi @ [?ask]\<rparr> =
        \<lparr>stdin = [''1''],
         asked = [?ask, ?ask, ?ask, (''Choose'', [''1'', ''2'']), ?ask]\<rparr>"
      using e c by simp
    have ev: "merge_rows_enhanced [''K'', ''V''] (Some [''d'', ''2'']) (Some [''d'', ''1''])
        \<lparr>stdin = [''1''],
         asked = [?ask, ?ask, ?ask, (''Choose'', [''1'', ''2'']), ?ask]\<rparr> =
        Inr (Some [''d'', ''2''],
             \<lparr>stdin = [],
              asked = [?ask, ?ask, ?ask, (''Choose'', [''1'', ''2'']), ?ask,
                       (''Choose'', [''1'', ''2''])]\<rparr>)"
      by (simp add: merge_rows_enhanced_def merge_field_def get_user_choice_def strip_def
          is_space_def cell_at_def upt_rec Let_def)
    from k c(1) r(5) ac(4) obtain m w2 later where
      m: "merge_rows_enhanced (resolved_headers ?L ?R)
            (row_at (rows ?R) 3) (row_at (rows ?L) 3)
            (wi\<lparr>stdin := rest, asked := asked wi @ [?ask]\<rparr>) = Inr (Some m, w2)" and
      p: "rows ?S = filter (\<lambda>r. r \<noteq> [] \<and> any_cell r) before @ m # later"
      by auto
    from m ev have "m = [''d'', ''2'']" unfolding hd r w1 by simp
    with p e ev show ?thesis by blast
  qed
  from run a1 a2 a3 a4 show ?thesis by simp
qed

text \<open>
  \<^bold>\<open>C1\<close>, as stated, fails. First run: the local sheet has no row and the remote
  sheet has the row \<^verbatim>\<open>["x"]\<close>, so the rows of index 0 differ; the operator answers
  \<^verbatim>\<open>"1"\<close>, which is not skip, and the resolved sheet has no row: the guard
  \<^verbatim>\<open>choice == "1" and lrow\<close> of line 254 is false and no later branch matches.
  Second run: the rows \<^verbatim>\<open>[" "]\<close> and \<^verbatim>\<open>[""]\<close> differ, the operator answers \<^verbatim>\<open>"1"\<close>,
  the local row is appended and then removed by the blank-row filter of line 270.
\<close>

theorem conflicting_row_dropped_counterexample:
  "row_at (rows \<lparr>headers = [''H''], rows = []\<rparr>) 0 \<noteq>
     row_at (rows \<lparr>headers = [''H''], rows = [[''x'']]\<rparr>) 0 \<and>
   get_user_choice_loop row_choices (stdin \<lparr>stdin = [''1''], asked = []\<rparr>) = Inr (''1'', []) \<and>
   ''1'' \<noteq> ''s'' \<and>
   compare_sheet \<lparr>headers = [''H''], rows = []\<rparr> \<lparr>headers = [''H''], rows = [[''x'']]\<rparr>
     \<lparr>stdin = [''1''], asked = []\<rparr> =
   Inr ((\<lparr>headers = [''H''], rows = []\<rparr>, 1),
        \<lparr>stdin = [], asked = [(row_prompt, row_choices)]\<rparr>) \<and>
   row_at (rows \<lparr>headers = [''H''], rows = [['' '']]\<rparr>) 0 \<noteq>
     row_at (rows \<lparr>headers = [''H''], rows = [['''']]\<rparr>) 0 \<and>
   compare_sheet \<lparr>headers = [''H''], rows = [['' '']]\<rparr> \<lparr>headers = [''H''], rows = [['''']]\<rparr>
     \<lparr>stdin = [''1''], asked = []\<rparr> =
   Inr ((\<lparr>headers = [''H''], rows = []\<rparr>, 1),
        \<lparr>stdin = [], asked = [(row_prompt, row_choices)]\<rparr>)"
  by (simp add: compare_sheet_def resolved_headers_def compare_row_def row_at_def
      get_user_choice_def row_choices_def row_prompt_def strip_def is_space_def
      any_cell_def upt_rec Let_def)

section \<open>The dataset\<close>

subsection \<open>Identical input\<close>

lemma any_cell_iff: "any_cell r \<longleftrightarrow> \<not> (\<forall>cell\<in>set r. strip cell = [])"
  by (simp add: any_cell_def list_ex_iff)

lemma compare_row_identical:
  "compare_row hdrs (row_at rs i) (row_at rs i) (acc, n) w =
     Inr ((if i < length rs \<and> any_cell (rs ! i) then acc @ [rs ! i] else acc, n), w)"
  using any_cell_not_Nil [of "rs ! i"]
  by (auto simp: compare_row_equal row_at_def)

lemma compare_rows_loop_identical:
  "compare_rows_loop hdrs rs rs is (acc, n) w =
     Inr ((acc @ filter any_cell (map (nth rs) (filter (\<lambda>i. i < length rs) is)), n), w)"
  by (induction "is" arbitrary: acc) (simp_all add: compare_row_identical)

lemma keep_iff: "r \<noteq> [] \<and> any_cell r \<longleftrightarrow> any_cell r"
  using any_cell_not_Nil [of r] by blast

lemma compare_sheet_identical:
  "compare_sheet s s w = Inr ((\<lparr>headers = headers s, rows = filter any_cell (rows s)\<rparr>, 0), w)"
proof -
  have "filter (\<lambda>i. i < length (rows s)) [0..<length (rows s)] = [0..<length (rows s)]"
    by (rule filter_True) simp
  then have "compare_rows_loop (headers s) (rows s) (rows s) [0..<length (rows s)] ([], 0) w =
      Inr ((filter any_cell (rows s), 0), w)"
    by (simp add: compare_rows_loop_identical map_nth)
  then show ?thesis
    by (simp add: compare_sheet_def resolved_headers_def keep_iff)
qed

lemma compare_sheets_loop_identical:
  "set names \<subseteq> dom D \<Longrightarrow>
   compare_sheets_loop names D D (res, t) w =
     Inr ((\<lambda>k. if k \<in> set names
               then map_option (\<lambda>s. \<lparr>headers = headers s, rows = filter any_cell (rows s)\<rparr>) (D k)
               else res k, t), w)"
proof (induction names arbitrary: res)
  case Nil
  then show ?case by simp
next
  case (Cons name names)
  from Cons.prems obtain s where s: "D name = Some s" by auto
  from Cons.prems have sub: "set names \<subseteq> dom D" by simp
  have g: "get_sheet D name = s" using s by (simp add: get_sheet_def)
  show ?case
    using s by (auto simp: g compare_sheet_identical Cons.IH [OF sub])
qed

text \<open>
  \<^bold>\<open>C2\<close> (identical input). Reconciling a dataset \<open>D\<close> against itself, in any order
  of its sheet names, returns: the total conflict count is 0, the terminal is returned
  as it was (no line is read and no decision is asked), and the resolved dataset is
  \<open>D\<close> with the blank rows (every cell empty after trimming) removed from every sheet.
\<close>

theorem identical_input_idempotent:
  assumes "sheet_order all_sheets D D"
  shows "compare_json_enhanced all_sheets D D w =
     Inr ((\<lambda>name. map_option
                    (\<lambda>s. s\<lparr>rows := filter (\<lambda>r. \<not> (\<forall>cell\<in>set r. strip cell = [])) (rows s)\<rparr>)
                    (D name), 0), w)"
proof -
  from assms have sub: "set all_sheets \<subseteq> dom D" and all: "dom D \<subseteq> set all_sheets"
    by (simp_all add: sheet_order_def)
  have clean: "\<lparr>headers = headers s, rows = filter any_cell (rows s)\<rparr> =
      s\<lparr>rows := filter (\<lambda>r. \<not> (\<forall>cell\<in>set r. strip cell = [])) (rows s)\<rparr>" for s :: sheet
    by (simp add: any_cell_iff [abs_def])
  have "(\<lambda>k. if k \<in> set all_sheets
            then map_option (\<lambda>s. \<lparr>headers = headers s, rows = filter any_cell (rows s)\<rparr>) (D k)
            else Map.empty k) =
        (\<lambda>name. map_option
            (\<lambda>s. s\<lparr>rows := filter (\<lambda>r. \<not> (\<forall>cell\<in>set r. strip cell = [])) (rows s)\<rparr>)
            (D name))"
  proof
    fix k
    show "(if k \<in> set all_sheets
            then map_option (\<lambda>s. \<lparr>headers = headers s, rows = filter any_cell (rows s)\<rparr>) (D k)
            else Map.empty k) =
          map_option
            (\<lambda>s. s\<lparr>rows := filter (\<lambda>r. \<not> (\<forall>cell\<in>set r. strip cell = [])) (rows s)\<rparr>)
            (D k)"
      using all by (cases "D k") (auto simp: clean)
  qed
  then show ?thesis
    by (simp add: compare_json_enhanced_def compare_sheets_loop_identical [OF sub])
qed

theorem identical_input_idempotent_witness:
  "sheet_order [''S'']
     [''S'' \<mapsto> \<lparr>headers = [''H''], rows = [[''x''], ['' ''], []]\<rparr>]
     [''S'' \<mapsto> \<lparr>headers = [''H''], rows = [[''x''], ['' ''], []]\<rparr>] \<and>
   (\<exists>resolved.
      compare_json_enhanced [''S'']
        [''S'' \<mapsto> \<lparr>headers = [''H''], rows = [[''x''], ['' ''], []]\<rparr>]
        [''S'' \<mapsto> \<lparr>headers = [''H''], rows = [[''x''], ['' ''], []]\<rparr>]
        \<lparr>stdin = [], asked = []\<rparr> =
      Inr ((resolved, 0), \<lparr>stdin = [], asked = []\<rparr>) \<and>
      resolved ''S'' = Some \<lparr>headers = [''H''], rows = [[''x'']]\<rparr> \<and>
      resolved ''T'' = None)"
proof -
  let ?D = "[''S'' \<mapsto> \<lparr>headers = [''H''], rows = [[''x''], ['' ''], []]\<rparr>]"
  have ord: "sheet_order [''S''] ?D ?D"
    by (simp add: sheet_order_def)
  let ?res = "\<lambda>name. map_option
      (\<lambda>s. s\<lparr>rows := filter (\<lambda>r. \<not> (\<forall>cell\<in>set r. strip cell = [])) (rows s)\<rparr>) (?D name)"
  have a: "?res ''S'' = Some \<lparr>headers = [''H''], rows = [[''x'']]\<rparr>"
    by (simp add: strip_def is_space_def)
  have b: "?res ''T'' = None" by simp
  from identical_input_idempotent [OF ord, of "\<lparr>stdin = [], asked = []\<rparr>"] a b ord
  show ?thesis by blast
qed

subsection \<open>Invariants of the sheet loop\<close>

lemma compare_sheet_rows:
  "compare_sheet ls rs w = Inr ((sh, n), w') \<Longrightarrow>
   headers sh = resolved_headers ls rs \<and> (\<forall>r\<in>set (rows sh). any_cell r)"
  by (auto simp: compare_sheet_def Let_def split: sum.splits)

lemma compare_sheets_loop_inv:
  assumes "compare_sheets_loop names L R (res, t) w = Inr ((res', t'), w')"
    and "\<forall>k s. res k = Some s \<longrightarrow> (\<forall>r\<in>set (rows s). any_cell r)"
  shows "\<forall>k s. res' k = Some s \<longrightarrow> (\<forall>r\<in>set (rows s). any_cell r)"
  using assms
proof (induction names arbitrary: res t w)
  case Nil
  then show ?case by simp
next
  case (Cons name names)
  from Cons.prems(1) obtain sh n w1 where
    step: "compare_sheet (get_sheet L name) (get_sheet R name) w = Inr ((sh, n), w1)" and
    rest: "compare_sheets_loop names L R (res(name \<mapsto> sh), t + n) w1 = Inr ((res', t'), w')"
    by (auto split: sum.splits)
  from compare_sheet_rows [OF step] Cons.prems(2)
  have "\<forall>k s. (res(name \<mapsto> sh)) k = Some s \<longrightarrow> (\<forall>r\<in>set (rows s). any_cell r)"
    by auto
  from Cons.IH [OF rest this] show ?case .
qed

text \<open>
  \<^bold>\<open>C6\<close> (no blank row). Whatever the two datasets, the order of the sheets and the
  lines typed by the operator, every row of every sheet of a resolved dataset has a cell
  that is not empty after trimming.
\<close>

theorem no_blank_row_resolved:
  assumes "compare_json_enhanced all_sheets local_data remote_data w = Inr ((resolved, total_conflicts), w')"
    and "resolved name = Some sh" and "r \<in> set (rows sh)"
  shows "\<exists>cell\<in>set r. strip cell \<noteq> []"
proof -
  from assms(1) have
    "\<forall>k s. resolved k = Some s \<longrightarrow> (\<forall>r\<in>set (rows s). any_cell r)"
    unfolding compare_json_enhanced_def by (rule compare_sheets_loop_inv) simp
  with assms(2,3) have "any_cell r" by blast
  then show ?thesis by (simp add: any_cell_def list_ex_iff)
qed

theorem no_blank_row_resolved_witness:
  "compare_json_enhanced [''A'']
     [''A'' \<mapsto> \<lparr>headers = [''H''], rows = [[''x''], ['' '']]\<rparr>]
     [''A'' \<mapsto> \<lparr>headers = [''H''], rows = [[''x''], ['''']]\<rparr>]
     \<lparr>stdin = [''1''], asked = []\<rparr> =
   Inr (([''A'' \<mapsto> \<lparr>headers = [''H''], rows = [[''x'']]\<rparr>], 1),
        \<lparr>stdin = [], asked = [(row_prompt, row_choices)]\<rparr>) \<and>
   [''x''] \<in> set (rows \<lparr>headers = [''H''], rows = [[''x'']]\<rparr>) \<and>
   (\<exists>cell\<in>set [''x'']. strip cell \<noteq> [])"
proof -
  have run: "compare_json_enhanced [''A'']
     [''A'' \<mapsto> \<lparr>headers = [''H''], rows = [[''x''], ['' '']]\<rparr>]
     [''A'' \<mapsto> \<lparr>headers = [''H''], rows = [[''x''], ['''']]\<rparr>]
     \<lparr>stdin = [''1''], asked = []\<rparr> =
   Inr (([''A'' \<mapsto> \<lparr>headers = [''H''], rows = [[''x'']]\<rparr>], 1),
        \<lparr>stdin = [], asked = [(row_prompt, row_choices)]\<rparr>)"
    by (simp add: compare_json_enhanced_def get_sheet_def compare_sheet_def
        resolved_headers_def compare_row_def row_at_def get_user_choice_def row_choices_def
        row_prompt_def strip_def is_space_def any_cell_def upt_rec Let_def)
  have look: "[''A'' \<mapsto> \<lparr>headers = [''H''], rows = [[''x'']]\<rparr>] ''A'' =
      Some \<lparr>headers = [''H''], rows = [[''x'']]\<rparr>"
    by simp
  have mem: "[''x''] \<in> set (rows \<lparr>headers = [''H''], rows = [[''x'']]\<rparr>)" by simp
  from no_blank_row_resolved [OF run look mem] run mem show ?thesis by blast
qed

lemma compare_sheets_loop_other:
  "compare_sheets_loop names L R (res, t) w = Inr ((res', t'), w') \<Longrightarrow>
   k \<notin> set names \<Longrightarrow> res' k = res k"
proof (induction names arbitrary: res t w)
  case Nil
  then show ?case by simp
next
  case (Cons name names)
  from Cons.prems(1) obtain sh n w1 where
    rest: "compare_sheets_loop names L R (res(name \<mapsto> sh), t + n) w1 = Inr ((res', t'), w')"
    by (auto split: sum.splits)
  from Cons.IH [OF rest] Cons.prems(2) show ?case by simp
qed

lemma compare_sheets_loop_entries:
  "compare_sheets_loop names L R (res, t) w = Inr ((res', t'), w') \<Longrightarrow>
   \<forall>name\<in>set names. \<exists>sh n w1 w2. res' name = Some sh \<and>
      compare_sheet (get_sheet L name) (get_sheet R name) w1 = Inr ((sh, n), w2)"
proof (induction names arbitrary: res t w)
  case Nil
  then show ?case by simp
next
  case (Cons name names)
  from Cons.prems(1) obtain sh n w1 where
    step: "compare_sheet (get_sheet L name) (get_sheet R name) w = Inr ((sh, n), w1)" and
    rest: "compare_sheets_loop names L R (res(name \<mapsto> sh), t + n) w1 = Inr ((res', t'), w')"
    by (auto split: sum.splits)
  note ih = Cons.IH [OF rest]
  have "\<exists>sh n w1 w2. res' name = Some sh \<and>
      compare_sheet (get_sheet L name) (get_sheet R name) w1 = Inr ((sh, n), w2)"
  proof (cases "name \<in> set names")
    case True
    with ih show ?thesis by blast
  next
    case False
    from compare_sheets_loop_other [OF rest False] have "res' name = Some sh" by simp
    with step show ?thesis by blast
  qed
  with ih show ?case by simp
qed

lemma compare_sheets_loop_dom:
  "compare_sheets_loop names L R (res, t) w = Inr ((res', t'), w') \<Longrightarrow>
   dom res' = dom res \<union> set names"
proof (induction names arbitrary: res t w)
  case Nil
  then show ?case by simp
next
  case (Cons name names)
  from Cons.prems(1) obtain sh n w1 where
    rest: "compare_sheets_loop names L R (res(name \<mapsto> sh), t + n) w1 = Inr ((res', t'), w')"
    by (auto split: sum.splits)
  from Cons.IH [OF rest] show ?case by auto
qed

text \<open>
  \<^bold>\<open>C7\<close> (union of the sheets). The sheet names of the resolved dataset are exactly
  the names of the local dataset together with those of the remote dataset; the entry of
  each name is the sheet returned by reconciling the local and the remote sheet of that
  name, where a dataset without the name stands for the sheet with no headers and no
  rows. The entry is there whatever rows it has, and also when one dataset has no sheet.
\<close>

theorem union_of_sheets:
  assumes run: "compare_json_enhanced all_sheets local_data remote_data w =
                  Inr ((resolved, total_conflicts), w')"
    and ord: "sheet_order all_sheets local_data remote_data"
  shows "dom resolved = dom local_data \<union> dom remote_data \<and>
         (\<forall>name\<in>dom local_data \<union> dom remote_data. \<exists>sh n w1 w2.
            resolved name = Some sh \<and>
            compare_sheet (get_sheet local_data name) (get_sheet remote_data name) w1 =
              Inr ((sh, n), w2)) \<and>
         (\<forall>name. local_data name = None \<longrightarrow>
            get_sheet local_data name = \<lparr>headers = [], rows = []\<rparr>) \<and>
         (\<forall>name. remote_data name = None \<longrightarrow>
            get_sheet remote_data name = \<lparr>headers = [], rows = []\<rparr>)"
proof -
  from ord have s: "set all_sheets = dom local_data \<union> dom remote_data"
    by (simp add: sheet_order_def)
  from run have loop: "compare_sheets_loop all_sheets local_data remote_data (Map.empty, 0) w =
      Inr ((resolved, total_conflicts), w')"
    by (simp add: compare_json_enhanced_def)
  from compare_sheets_loop_dom [OF loop] s
  have a: "dom resolved = dom local_data \<union> dom remote_data" by simp
  from compare_sheets_loop_entries [OF loop] s
  have b: "\<forall>name\<in>dom local_data \<union> dom remote_data. \<exists>sh n w1 w2.
            resolved name = Some sh \<and>
            compare_sheet (get_sheet local_data name) (get_sheet remote_data name) w1 =
              Inr ((sh, n), w2)"
    by simp
  have c: "\<forall>name. local_data name = None \<longrightarrow>
            get_sheet local_data name = \<lparr>headers = [], rows = []\<rparr>"
    by (simp add: get_sheet_def empty_sheet_def)
  have d: "\<forall>name. remote_data name = None \<longrightarrow>
            get_sheet remote_data name = \<lparr>headers = [], rows = []\<rparr>"
    by (simp add: get_sheet_def empty_sheet_def)
  from a b c d show ?thesis by (intro conjI)
qed

theorem union_of_sheets_witness:
  "sheet_order [''A''] [''A'' \<mapsto> \<lparr>headers = [''H''], rows = [[''x'', ''1'']]\<rparr>] Map.empty \<and>
   compare_json_enhanced [''A'']
     [''A'' \<mapsto> \<lparr>headers = [''H''], rows = [[''x'', ''1'']]\<rparr>] Map.empty
     \<lparr>stdin = [''1''], asked = []\<rparr> =
   Inr (([''A'' \<mapsto> \<lparr>headers = [''H''], rows = [[''x'', ''1'']]\<rparr>], 1),
        \<lparr>stdin = [], asked = [(row_prompt, row_choices)]\<rparr>) \<and>
   dom [''A'' \<mapsto> \<lparr>headers = [''H''], rows = [[''x'', ''1'']]\<rparr>] =
     dom [''A'' \<mapsto> \<lparr>headers = [''H''], rows = [[''x'', ''1'']]\<rparr>] \<union>
     dom (Map.empty :: dataset)"
proof -
  have ord: "sheet_order [''A'']
      [''A'' \<mapsto> \<lparr>headers = [''H''], rows = [[''x'', ''1'']]\<rparr>] Map.empty"
    by (simp add: sheet_order_def)
  have run: "compare_json_enhanced [''A'']
     [''A'' \<mapsto> \<lparr>headers = [''H''], rows = [[''x'', ''1'']]\<rparr>] Map.empty
     \<lparr>stdin = [''1''], asked = []\<rparr> =
   Inr (([''A'' \<mapsto> \<lparr>headers = [''H''], rows = [[''x'', ''1'']]\<rparr>], 1),
        \<lparr>stdin = [], asked = [(row_prompt, row_choices)]\<rparr>)"
    by (simp add: compare_json_enhanced_def get_sheet_def empty_sheet_def compare_sheet_def
        resolved_headers_def compare_row_def row_at_def get_user_choice_def row_choices_def
        row_prompt_def strip_def is_space_def any_cell_def upt_rec Let_def)
  from union_of_sheets [OF run ord, THEN conjunct1] ord run show ?thesis by blast
qed

end
